theory Spec2Isabelle
  imports
    Main
    "HOL-Library.Sublist"
    "HOL-Library.Char_ord"
    "HOL-Library.List_Lexorder"
    "HOL-Library.Multiset"
begin

section \<open>Python string operations used by the router\<close>

text \<open>
  The route loader of \<^verbatim>\<open>fastapi_file_router/router.py\<close> is one function,
  \<^verbatim>\<open>load_routes\<close>, built from string and \<^verbatim>\<open>pathlib\<close> operations. Python
  strings are modelled as \<^typ>\<open>string\<close>; every operation below is the library routine the
  source calls, written out as a recursive function.
\<close>

text \<open>\<^verbatim>\<open>s.startswith(p)\<close>\<close>

definition startswith :: "string \<Rightarrow> string \<Rightarrow> bool" where
  "startswith s p = prefix p s"

text \<open>\<^verbatim>\<open>s.endswith(p)\<close>\<close>

definition endswith :: "string \<Rightarrow> string \<Rightarrow> bool" where
  "endswith s p = suffix p s"

text \<open>\<^verbatim>\<open>p in s\<close> on strings: \<^verbatim>\<open>p\<close> occurs in \<^verbatim>\<open>s\<close> as a contiguous block.\<close>

definition contains :: "string \<Rightarrow> string \<Rightarrow> bool" where
  "contains s p = sublist p s"

text \<open>
  \<^verbatim>\<open>s.replace(old, new)\<close> with no count: scanning from the left, every occurrence of
  \<^verbatim>\<open>old\<close> that does not overlap an earlier one is replaced. With an empty
  \<^verbatim>\<open>old\<close> Python inserts \<^verbatim>\<open>new\<close> before every character and at the end.
\<close>

fun replace_scan :: "string \<Rightarrow> string \<Rightarrow> string \<Rightarrow> string" where
  "replace_scan old new [] = []"
| "replace_scan old new (c # cs) =
     (if old \<noteq> [] \<and> prefix old (c # cs)
      then new @ replace_scan old new (drop (length old) (c # cs))
      else c # replace_scan old new cs)"

definition replace :: "string \<Rightarrow> string \<Rightarrow> string \<Rightarrow> string" where
  "replace s old new =
     (if old = [] then new @ concat (map (\<lambda>c. c # new) s) else replace_scan old new s)"

text \<open>\<^verbatim>\<open>s.split(sep)\<close> for a one-character separator: never empty, keeps empty fields.\<close>

fun split :: "string \<Rightarrow> char \<Rightarrow> string list" where
  "split [] sep = [[]]"
| "split (c # cs) sep =
     (if c = sep then [] # split cs sep
      else (case split cs sep of
              [] \<Rightarrow> [[c]]
            | w # ws \<Rightarrow> (c # w) # ws))"

text \<open>\<^verbatim>\<open>sep.join(xs)\<close>\<close>

fun join :: "string \<Rightarrow> string list \<Rightarrow> string" where
  "join sep [] = []"
| "join sep [x] = x"
| "join sep (x # y # ys) = x @ sep @ join sep (y # ys)"

text \<open>
  The two slices of the source: \<^verbatim>\<open>xs[1:-1]\<close> drops the first and the last element
  (and is empty for fewer than two elements), \<^verbatim>\<open>s[:-3]\<close> drops the last three
  characters (and is empty for fewer than three).
\<close>

definition slice_1_m1 :: "'a list \<Rightarrow> 'a list" where
  "slice_1_m1 xs = butlast (tl xs)"

definition slice_to_m3 :: "'a list \<Rightarrow> 'a list" where
  "slice_to_m3 s = take (length s - 3) s"

text \<open>
  \<^verbatim>\<open>re.search(r"\[(.*?)\]", s)\<close>. The search tries every start position from the
  left; at a position holding \<^verbatim>\<open>[\<close> the lazy group takes the characters up to the next
  \<^verbatim>\<open>]\<close>, and fails at a line feed, which \<^verbatim>\<open>.\<close> does not match. The result is
  group 1 of the leftmost match, or \<open>None\<close> for no match.
\<close>

fun group_upto_close :: "string \<Rightarrow> string option" where
  "group_upto_close [] = None"
| "group_upto_close (c # cs) =
     (if c = CHR '']'' then Some []
      else if c = CHR 0x0A then None
      else map_option ((#) c) (group_upto_close cs))"

fun search_bracket_group :: "string \<Rightarrow> string option" where
  "search_bracket_group [] = None"
| "search_bracket_group (c # cs) =
     (if c = CHR ''[''
      then (case group_upto_close cs of
              Some g \<Rightarrow> Some g
            | None \<Rightarrow> search_bracket_group cs)
      else search_bracket_group cs)"

text \<open>\<^verbatim>\<open>square_to_curly_brackets\<close> (router.py, lines 25-27).\<close>

definition square_to_curly_brackets :: "string \<Rightarrow> string" where
  "square_to_curly_brackets p = replace (replace p ''['' ''{'') '']'' ''}''"

section \<open>Paths\<close>

text \<open>
  A \<^verbatim>\<open>pathlib.PurePosixPath\<close>: whether it starts at the filesystem root, and its
  components after that. \<^verbatim>\<open>Path(".")\<close> is the relative path with no components.
  (The POSIX root written with exactly two slashes is not modelled.)
\<close>

record path =
  anchored :: bool
  parts :: "string list"

text \<open>\<^verbatim>\<open>p.name\<close>: the last component, empty when there is none.\<close>

definition name :: "path \<Rightarrow> string" where
  "name p = (if parts p = [] then [] else last (parts p))"

text \<open>\<^verbatim>\<open>p.as_posix()\<close>, which on POSIX is \<^verbatim>\<open>str(p)\<close>.\<close>

definition as_posix :: "path \<Rightarrow> string" where
  "as_posix p =
     (if anchored p then ''/'' @ join ''/'' (parts p)
      else if parts p = [] then ''.''
      else join ''/'' (parts p))"

text \<open>
  \<^verbatim>\<open>p / child\<close> for a child that is one directory entry as \<^verbatim>\<open>os.walk\<close> lists it
  (a single component). \<^verbatim>\<open>Path(os.path.join(str(p), child))\<close>, which is how the
  source obtains \<^verbatim>\<open>root\<close>, is the same path.
\<close>

definition truediv :: "path \<Rightarrow> string \<Rightarrow> path" where
  "truediv p child = p\<lparr>parts := parts p @ [child]\<rparr>"

text \<open>
  \<^verbatim>\<open>Path(file).suffix\<close> and \<^verbatim>\<open>Path(file).stem\<close> of a file name, as pathlib
  computes them from the position \<^verbatim>\<open>i = name.rfind('.')\<close>: the suffix starts at the
  last dot when \<^verbatim>\<open>0 < i < len(name) - 1\<close>, and is empty otherwise.
\<close>

definition rfind :: "string \<Rightarrow> char \<Rightarrow> nat option" where
  "rfind s c =
     (if c \<in> set s then Some (length s - 1 - length (takeWhile (\<lambda>x. x \<noteq> c) (rev s)))
      else None)"

definition suffix_of :: "string \<Rightarrow> string" where
  "suffix_of nm =
     (case rfind nm CHR ''.'' of
        None \<Rightarrow> []
      | Some i \<Rightarrow> if 0 < i \<and> i < length nm - 1 then drop i nm else [])"

definition stem :: "string \<Rightarrow> string" where
  "stem nm =
     (case rfind nm CHR ''.'' of
        None \<Rightarrow> nm
      | Some i \<Rightarrow> if 0 < i \<and> i < length nm - 1 then take i nm else nm)"

section \<open>The environment of \<^verbatim>\<open>load_routes\<close>\<close>

text \<open>
  The directory tree that \<^verbatim>\<open>os.walk\<close> reads: a directory holds the names of its
  files and its subdirectories by name, both in the order in which the operating system
  lists them. \<^verbatim>\<open>walk\<close> (router.py, lines 30-32) yields top-down one triple per
  directory: its path, the names of its subdirectories, the names of its files.
\<close>

datatype tree = Dir (files: "string list") (subdirs: "(string \<times> tree) list")

fun walk :: "path \<Rightarrow> tree \<Rightarrow> (path \<times> string list \<times> string list) list" where
  "walk dirpath (Dir fs ds) =
     (dirpath, map fst ds, fs)
     # concat (map (\<lambda>d. walk (truediv dirpath (fst d)) (snd d)) ds)"

text \<open>
  Routers are objects with identity; a \<^verbatim>\<open>handler\<close> is the reference to one.
  \<^verbatim>\<open>importlib.import_module(m)\<close> either raises or returns the module, and
  \<^verbatim>\<open>getattr(route, "router", None)\<close> is then the module's router or \<^verbatim>\<open>None\<close>.
  The importer is a function of the module name: \<^verbatim>\<open>import_module\<close> keeps every
  module it has loaded and returns the same module, hence the same router object, when
  asked again.
\<close>

type_synonym handler = nat

datatype module_result = ImportRaises | Module "handler option"

type_synonym importer = "string \<Rightarrow> module_result"

text \<open>
  What a run does to the outside: the messages it logs (each \<^verbatim>\<open>log\<close> call of the
  source is one constructor carrying the values its f-string interpolates; the path of
  \<open>NoRouter\<close> stands for its absolute form, which depends on the working directory,
  and the elapsed time of the last message is left out), the modules it imports, and the
  \<^verbatim>\<open>app.include_router\<close> calls that the app has accepted, with their
  \<^verbatim>\<open>prefix\<close> and \<^verbatim>\<open>tags\<close> arguments.
\<close>

datatype level = DEBUG | INFO | WARNING

datatype message =
    LoadingRoutes path
  | SkippingMisspelled string path
  | NoRouter path
  | LoadedRouter string
  | RoutesLoaded

datatype effect =
    is_Log: Log level message
  | is_ImportModule: ImportModule string
  | is_IncludeRouter: IncludeRouter handler string "string list"

text \<open>
  The mutable world: \<^verbatim>\<open>router.tags\<close> of every router object, and the effects so
  far in the order in which they happened.
\<close>

record world =
  tags :: "handler \<Rightarrow> string list"
  trace :: "effect list"

text \<open>
  The app that \<^verbatim>\<open>load_routes\<close> is given is not part of the repository. Of the app
  the function uses only \<^verbatim>\<open>app.include_router(router, prefix=..., tags=...)\<close>, so
  the app is a parameter: whether it accepts such a call; when it does not, the call
  raises (FastAPI asserts properties of the prefix).
\<close>

type_synonym app = "handler \<Rightarrow> string \<Rightarrow> string list \<Rightarrow> bool"

text \<open>
  The exceptions of a run: raised by \<^verbatim>\<open>importlib.import_module\<close> for the named
  module, or by \<^verbatim>\<open>app.include_router\<close> for the given router and prefix.
\<close>

datatype error = ModuleLoadError string | IncludeRouterError handler string

text \<open>
  A run either raises, leaving the world as it was at that moment, or completes with a
  value.
\<close>

type_synonym 'a outcome = "(error \<times> world) + 'a"

definition emit :: "effect \<Rightarrow> world \<Rightarrow> world" where
  "emit e w = w\<lparr>trace := trace w @ [e]\<rparr>"

text \<open>\<^verbatim>\<open>log\<close> (router.py, lines 18-22).\<close>

definition log :: "message \<Rightarrow> bool \<Rightarrow> world \<Rightarrow> world" where
  "log msg verbose w = (if verbose then emit (Log INFO msg) w else emit (Log DEBUG msg) w)"

text \<open>A \<^verbatim>\<open>for\<close> loop whose body may raise: the first exception ends the loop.\<close>

fun for_each :: "('a \<Rightarrow> 's \<Rightarrow> 'e + 's) \<Rightarrow> 'a list \<Rightarrow> 's \<Rightarrow> 'e + 's" where
  "for_each body [] s = Inr s"
| "for_each body (x # xs) s =
     (case body x s of Inl e \<Rightarrow> Inl e | Inr s' \<Rightarrow> for_each body xs s')"

section \<open>\<^verbatim>\<open>load_routes\<close>\<close>

text \<open>
  The module name handed to the importer (lines 87-89):
  \<^verbatim>\<open>(root / file).as_posix().replace("/", ".")[:-3]\<close>.
\<close>

definition import_name :: "path \<Rightarrow> string \<Rightarrow> string" where
  "import_name root file = slice_to_m3 (replace (as_posix (truediv root file)) ''/'' ''.'')"

text \<open>
  Lines 98-100: the directory part of the route path. The components of the file's path
  without the first and the last are joined and their brackets converted; then the name
  of the directory given to \<^verbatim>\<open>load_routes\<close> is replaced by the empty string.
\<close>

definition joined_directories :: "path \<Rightarrow> string \<Rightarrow> string" where
  "joined_directories root file =
     square_to_curly_brackets
       (join ''/'' (slice_1_m1 (split (as_posix (truediv root file)) CHR ''/'')))"

definition directory_route_path :: "path \<Rightarrow> path \<Rightarrow> string \<Rightarrow> string" where
  "directory_route_path directory root file =
     replace (joined_directories root file) (name directory) []"

text \<open>
  Lines 102-112: what the file's stem adds. The source searches the stem twice with the
  same pattern; a match object is always true, so the inner test repeats the outer one.
\<close>

definition stem_route_path :: "string \<Rightarrow> string" where
  "stem_route_path st =
     (case search_bracket_group st of
        Some param_name \<Rightarrow> ''/{'' @ param_name @ ''}''
      | None \<Rightarrow> if st \<noteq> ''route'' then ''/'' @ st else [])"

definition route_path_of :: "path \<Rightarrow> path \<Rightarrow> string \<Rightarrow> string" where
  "route_path_of directory root file =
     directory_route_path directory root file @ stem_route_path (stem file)"

text \<open>Lines 116-117: \<^verbatim>\<open>router.tags += [route_path.replace(directory.name, '')]\<close>.\<close>

definition add_tag :: "path \<Rightarrow> string \<Rightarrow> handler \<Rightarrow> world \<Rightarrow> world" where
  "add_tag directory route_path router w =
     w\<lparr>tags := (tags w)(router := tags w router @ [replace route_path (name directory) []])\<rparr>"

text \<open>
  The body of the inner loop (lines 77-118) for one file name of the directory
  \<^verbatim>\<open>root\<close>. The state of the loop is the world and the list \<^verbatim>\<open>routers\<close>.
\<close>

type_synonym routers = "(string \<times> handler) list"

definition visit_file ::
  "path \<Rightarrow> bool \<Rightarrow> bool \<Rightarrow> importer \<Rightarrow> path \<Rightarrow> string \<Rightarrow> world \<times> routers
     \<Rightarrow> (world \<times> routers) outcome" where
  "visit_file directory auto_tags verbose import_module root file s =
     (case s of (w, routers) \<Rightarrow>
        if startswith file ''__'' \<or> suffix_of file \<noteq> ''.py'' then Inr (w, routers)
        else if contains (stem file) ''route'' \<and> stem file \<noteq> ''route''
        then Inr (log (SkippingMisspelled (stem file) root) verbose w, routers)
        else
          let w1 = emit (ImportModule (import_name root file)) w in
          (case import_module (import_name root file) of
             ImportRaises \<Rightarrow> Inl (ModuleLoadError (import_name root file), w1)
           | Module None \<Rightarrow> Inr (log (NoRouter (truediv root file)) verbose w1, routers)
           | Module (Some router) \<Rightarrow>
               let route_path = route_path_of directory root file;
                   w2 = (if auto_tags then add_tag directory route_path router w1 else w1)
               in Inr (w2, routers @ [(route_path, router)])))"

text \<open>The body of the outer loop (lines 73-118) for one triple of \<^verbatim>\<open>walk\<close>.\<close>

definition visit_dir ::
  "path \<Rightarrow> bool \<Rightarrow> bool \<Rightarrow> importer \<Rightarrow> path \<times> string list \<times> string list
     \<Rightarrow> world \<times> routers \<Rightarrow> (world \<times> routers) outcome" where
  "visit_dir directory auto_tags verbose import_module triple s =
     (case triple of (root, _, fs) \<Rightarrow>
        if startswith (name root) ''__'' then Inr s
        else for_each (visit_file directory auto_tags verbose import_module root) fs s)"

text \<open>Lines 70-118: the traversal that fills \<^verbatim>\<open>routers\<close>.\<close>

definition traverse ::
  "path \<Rightarrow> bool \<Rightarrow> bool \<Rightarrow> importer \<Rightarrow> tree \<Rightarrow> world \<Rightarrow> (world \<times> routers) outcome" where
  "traverse directory auto_tags verbose import_module t w =
     for_each (visit_dir directory auto_tags verbose import_module) (walk directory t) (w, [])"

text \<open>
  The traversal followed by \<^verbatim>\<open>sorted(routers, key=operator.itemgetter(0))\<close> of line
  121: a stable sort on the route path, strings compared character by character.
\<close>

definition collect ::
  "path \<Rightarrow> bool \<Rightarrow> bool \<Rightarrow> importer \<Rightarrow> tree \<Rightarrow> world \<Rightarrow> (world \<times> routers) outcome" where
  "collect directory auto_tags verbose import_module t w =
     (case traverse directory auto_tags verbose import_module t w of
        Inl e \<Rightarrow> Inl e
      | Inr (w', routers) \<Rightarrow> Inr (w', sort_key fst routers))"

text \<open>
  The body of the registration loop (lines 122-127): the message is logged, then
  \<^verbatim>\<open>app.include_router\<close> is called with \<^verbatim>\<open>prefix=f"{route_path}"\<close> and
  \<^verbatim>\<open>tags=router.tags\<close>.
\<close>

definition include_router :: "app \<Rightarrow> bool \<Rightarrow> string \<times> handler \<Rightarrow> world \<Rightarrow> world outcome" where
  "include_router app verbose entry w =
     (case entry of (route_path, router) \<Rightarrow>
        let w1 = log (LoadedRouter (''/'' @ route_path)) verbose w in
        if app router route_path (tags w1 router)
        then Inr (emit (IncludeRouter router route_path (tags w1 router)) w1)
        else Inl (IncludeRouterError router route_path, w1))"

text \<open>
  \<^verbatim>\<open>load_routes\<close> (lines 35-130). The value returned is the app it was given; the
  model returns the world, whose trace holds the registrations made on the app.
\<close>

definition load_routes ::
  "app \<Rightarrow> path \<Rightarrow> bool \<Rightarrow> bool \<Rightarrow> importer \<Rightarrow> tree \<Rightarrow> world \<Rightarrow> world outcome" where
  "load_routes app directory auto_tags verbose import_module t w =
     (case collect directory auto_tags verbose import_module t
             (log (LoadingRoutes directory) verbose w) of
        Inl e \<Rightarrow> Inl e
      | Inr (w1, routers) \<Rightarrow>
          (case for_each (include_router app verbose) routers w1 of
             Inl e \<Rightarrow> Inl e
           | Inr w2 \<Rightarrow> Inr (log RoutesLoaded verbose w2)))"

section \<open>Vocabulary of the properties\<close>

text \<open>
  A file name passes the skip rules of lines 78 and 80: it does not start with two
  underscores, its suffix is \<^verbatim>\<open>.py\<close>, and its stem is \<^verbatim>\<open>route\<close> or does not
  contain \<^verbatim>\<open>route\<close>.
\<close>

definition passes_skip_rules :: "string \<Rightarrow> bool" where
  "passes_skip_rules file =
     (\<not> startswith file ''__'' \<and> suffix_of file = ''.py''
      \<and> \<not> (contains (stem file) ''route'' \<and> stem file \<noteq> ''route''))"

text \<open>
  The pattern of lines 102 and 105, said without the search. A bracketed group is an
  opening bracket, then characters other than the line feed, then a closing bracket.
  The text after an opening bracket closes on its line when a closing bracket follows
  with no line feed before it.
\<close>

definition closes_on_line :: "string \<Rightarrow> bool" where
  "closes_on_line s = (\<exists>g post. s = g @ '']'' @ post \<and> CHR 0x0A \<notin> set g)"

definition has_bracketed_group :: "string \<Rightarrow> bool" where
  "has_bracketed_group st =
     (\<exists>pre g post. st = pre @ ''['' @ g @ '']'' @ post \<and> CHR 0x0A \<notin> set g)"

text \<open>
  \<open>g\<close> is the inner text of the first bracketed group of \<open>st\<close>: \<open>g\<close> stands in
  \<open>st\<close> between an opening bracket and the next closing bracket, with no line feed
  in it, and no opening bracket before that one starts a group.
\<close>

definition first_bracketed_group :: "string \<Rightarrow> string \<Rightarrow> bool" where
  "first_bracketed_group st g =
     (\<exists>pre post. st = pre @ ''['' @ g @ '']'' @ post
        \<and> CHR '']'' \<notin> set g \<and> CHR 0x0A \<notin> set g
        \<and> (\<forall>p1 p2. pre = p1 @ ''['' @ p2 \<longrightarrow>
              \<not> closes_on_line (p2 @ ''['' @ g @ '']'' @ post)))"

text \<open>The world a run ends in, whether it raised or completed.\<close>

fun world_of :: "world outcome \<Rightarrow> world" where
  "world_of (Inl (e, w)) = w"
| "world_of (Inr w) = w"

text \<open>The exception a run raised, if any.\<close>

fun error_of :: "'a outcome \<Rightarrow> error option" where
  "error_of (Inl (e, w)) = Some e"
| "error_of (Inr x) = None"

text \<open>The world in which a traversal or a collection ends, whether it raised or completed.\<close>

fun state_world :: "(world \<times> routers) outcome \<Rightarrow> world" where
  "state_world (Inl (e, w)) = w"
| "state_world (Inr (w, rs)) = w"

text \<open>The routers a collection returns; nothing is returned when it raised.\<close>

fun routers_of :: "(world \<times> routers) outcome \<Rightarrow> routers" where
  "routers_of (Inl e) = []"
| "routers_of (Inr (w, rs)) = rs"

text \<open>The \<^verbatim>\<open>include_router\<close> calls of a trace: router, prefix, tags.\<close>

fun registration :: "effect \<Rightarrow> (handler \<times> string \<times> string list) list" where
  "registration (IncludeRouter router pfx ts) = [(router, pfx, ts)]"
| "registration e = []"

definition registrations :: "effect list \<Rightarrow> (handler \<times> string \<times> string list) list" where
  "registrations tr = concat (map registration tr)"

text \<open>
  What the traversal collects, said without the loops and the world. A file raises when
  it passes the skip rules and its module cannot be imported. Otherwise it contributes
  one entry, its route path with the router of its module, when it passes the skip rules
  and the module has a router, and nothing in every other case. A directory contributes
  the entries of its files in their order, unless its name starts with two underscores.
\<close>

definition file_raises :: "importer \<Rightarrow> path \<Rightarrow> string \<Rightarrow> bool" where
  "file_raises import_module root file =
     (passes_skip_rules file \<and> import_module (import_name root file) = ImportRaises)"

definition dir_raises :: "importer \<Rightarrow> path \<times> string list \<times> string list \<Rightarrow> bool" where
  "dir_raises import_module triple =
     (case triple of (root, _, fs) \<Rightarrow>
        \<not> startswith (name root) ''__'' \<and> (\<exists>file \<in> set fs. file_raises import_module root file))"

definition file_entries :: "path \<Rightarrow> importer \<Rightarrow> path \<Rightarrow> string \<Rightarrow> routers" where
  "file_entries directory import_module root file =
     (if passes_skip_rules file
      then (case import_module (import_name root file) of
              Module (Some router) \<Rightarrow> [(route_path_of directory root file, router)]
            | _ \<Rightarrow> [])
      else [])"

definition dir_entries ::
  "path \<Rightarrow> importer \<Rightarrow> path \<times> string list \<times> string list \<Rightarrow> routers" where
  "dir_entries directory import_module triple =
     (case triple of (root, _, fs) \<Rightarrow>
        if startswith (name root) ''__'' then []
        else concat (map (file_entries directory import_module root) fs))"

text \<open>
  The second world continues the first with effects among which there is no
  \<^verbatim>\<open>include_router\<close> call.
\<close>

definition only_logs_and_imports :: "world \<Rightarrow> world \<Rightarrow> bool" where
  "only_logs_and_imports w w' =
     (\<exists>new. trace w' = trace w @ new \<and> list_all (\<lambda>e. \<not> is_IncludeRouter e) new)"

text \<open>
  A loop body whose outcome does not depend on the state it starts in: for each item
  \<open>x\<close> it either raises in every state (\<open>c x = None\<close>) or completes in every state
  and appends the same entries \<open>new\<close> to \<^verbatim>\<open>routers\<close> (\<open>c x = Some new\<close>).
\<close>

definition contributes ::
  "('a \<Rightarrow> world \<times> routers \<Rightarrow> (world \<times> routers) outcome) \<Rightarrow> ('a \<Rightarrow> routers option)
     \<Rightarrow> bool" where
  "contributes body c =
     (\<forall>x w rs. case c x of
        None \<Rightarrow> isl (body x (w, rs))
      | Some new \<Rightarrow> (\<exists>w'. body x (w, rs) = Inr (w', rs @ new)))"

text \<open>
  The effects of one pass of the registration loop, for the tag lists \<open>tg\<close> that the
  routers have when the loop starts.
\<close>

definition registration_effects ::
  "bool \<Rightarrow> (handler \<Rightarrow> string list) \<Rightarrow> string \<times> handler \<Rightarrow> effect list" where
  "registration_effects verbose tg entry =
     [Log (if verbose then INFO else DEBUG) (LoadedRouter (''/'' @ fst entry)),
      IncludeRouter (snd entry) (fst entry) (tg (snd entry))]"

text \<open>
  Every string obtained from \<open>s\<close> by taking out one occurrence of \<open>nm\<close>: what
  stripping exactly one occurrence of a name could return.
\<close>

definition strip_one_occurrence :: "string \<Rightarrow> string \<Rightarrow> string list" where
  "strip_one_occurrence s nm =
     map (\<lambda>i. take i s @ drop (i + length nm) s)
       (filter (\<lambda>i. take (length nm) (drop i s) = nm) [0..<Suc (length s)])"

text \<open>
  The tree without the files that lie directly in a directory whose name starts with two
  underscores; \<open>dirpath\<close> is the path of the tree's top directory.
\<close>

fun without_dunder_files :: "path \<Rightarrow> tree \<Rightarrow> tree" where
  "without_dunder_files dirpath (Dir fs ds) =
     Dir (if startswith (name dirpath) ''__'' then [] else fs)
       (map (\<lambda>d. (fst d, without_dunder_files (truediv dirpath (fst d)) (snd d))) ds)"

section \<open>Example inputs\<close>

text \<open>
  A tree holding one file below a chain of directories; the relative directory
  \<^verbatim>\<open>api\<close>; an importer for which every module has the router object 0; a world in
  which no router has a tag and nothing has happened.
\<close>

fun lone_file :: "string list \<Rightarrow> string \<Rightarrow> tree" where
  "lone_file [] file = Dir [file] []"
| "lone_file (d # ds) file = Dir [] [(d, lone_file ds file)]"

definition api_dir :: path where
  "api_dir = \<lparr>anchored = False, parts = [''api'']\<rparr>"

text \<open>The directory \<^verbatim>\<open>app/api\<close>, given as a relative path of two components.\<close>

definition app_api_dir :: path where
  "app_api_dir = \<lparr>anchored = False, parts = [''app'', ''api'']\<rparr>"

text \<open>
  Two apps. The app of the test suite, whose \<^verbatim>\<open>include_router\<close> is a mock that
  accepts every call. An app that asserts what FastAPI's \<^verbatim>\<open>include_router\<close>
  asserts of a prefix that is not empty: it starts with a slash and does not end with
  one.
\<close>

definition mock_app :: app where
  "mock_app router pfx ts = True"

definition asserting_app :: app where
  "asserting_app router pfx ts = (pfx = [] \<or> (startswith pfx ''/'' \<and> \<not> endswith pfx ''/''))"

definition one_router :: importer where
  "one_router m = Module (Some 0)"

text \<open>An importer for which the module \<^verbatim>\<open>api.users.broken\<close> cannot be loaded.\<close>

definition broken_importer :: importer where
  "broken_importer m = (if m = ''api.users.broken'' then ImportRaises else Module (Some 0))"

text \<open>A directory \<^verbatim>\<open>users\<close> with a route file and a module that cannot be loaded.\<close>

definition broken_tree :: tree where
  "broken_tree = Dir [] [(''users'', Dir [''route.py'', ''broken.py''] [])]"

text \<open>
  The directory \<^verbatim>\<open>api/api_v1/api_docs\<close>, whose components repeat the name of the
  directory \<^verbatim>\<open>api\<close>, and the directory \<^verbatim>\<open>api/users\<close>.
\<close>

definition api_docs_dir :: path where
  "api_docs_dir = \<lparr>anchored = False, parts = [''api'', ''api_v1'', ''api_docs'']\<rparr>"

definition users_dir :: path where
  "users_dir = \<lparr>anchored = False, parts = [''api'', ''users'']\<rparr>"

text \<open>
  The tree of the test \<^verbatim>\<open>test_load_routes_skip_special_dirs_and_files\<close>, with a route
  file added in \<^verbatim>\<open>users\<close>.
\<close>

definition pycache_tree :: tree where
  "pycache_tree =
     Dir [''__init__.py'']
       [(''__pycache__'', Dir [''cached.py''] []), (''users'', Dir [''route.py''] [])]"

text \<open>The tree of the docstring of \<^verbatim>\<open>load_routes\<close>.\<close>

definition docstring_tree :: tree where
  "docstring_tree =
     Dir []
       [(''users'', Dir [''route.py'', ''[user_id].py''] []),
        (''documents'', Dir [] [(''[document_id]'', Dir [''route.py''] [])])]"

text \<open>
  An importer that gives the three modules of the docstring's tree the routers 0, 1
  and 2.
\<close>

definition docstring_importer :: importer where
  "docstring_importer m =
     (if m = ''api.users.route'' then Module (Some 0)
      else if m = ''api.users.[user_id]'' then Module (Some 1)
      else Module (Some 2))"

text \<open>
  Two files with the same route path \<^verbatim>\<open>a/b\<close>: \<^verbatim>\<open>a/b.py\<close> and
  \<^verbatim>\<open>a/b/route.py\<close>. Two directories with the same route path \<^verbatim>\<open>{x}\<close>, listed
  in one order and in the other. An importer that gives \<^verbatim>\<open>api.a.b\<close> and
  \<^verbatim>\<open>api.[x].route\<close> the router 1 and every other module the router 2.
\<close>

definition shadow_tree :: tree where
  "shadow_tree = Dir [] [(''a'', Dir [''b.py''] [(''b'', Dir [''route.py''] [])])]"

definition square_first_tree :: tree where
  "square_first_tree = Dir [] [(''[x]'', Dir [''route.py''] []), (''{x}'', Dir [''route.py''] [])]"

definition curly_first_tree :: tree where
  "curly_first_tree = Dir [] [(''{x}'', Dir [''route.py''] []), (''[x]'', Dir [''route.py''] [])]"

definition two_routers :: importer where
  "two_routers m =
     (if m = ''api.a.b'' \<or> m = ''api.[x].route'' then Module (Some 1) else Module (Some 2))"

definition fresh_world :: world where
  "fresh_world = \<lparr>tags = (\<lambda>router. []), trace = []\<rparr>"

section \<open>Evaluation on concrete inputs\<close>

lemmas string_eval =
  startswith_def endswith_def suffix_to_prefix contains_def sublist_code replace_def slice_1_m1_def slice_to_m3_def
  square_to_curly_brackets_def rfind_def suffix_of_def stem_def

lemmas path_eval =
  name_def as_posix_def truediv_def import_name_def joined_directories_def
  directory_route_path_def stem_route_path_def route_path_of_def

lemmas example_eval =
  app_api_dir_def mock_app_def asserting_app_def api_dir_def one_router_def broken_importer_def fresh_world_def broken_tree_def
  docstring_tree_def api_docs_dir_def users_dir_def pycache_tree_def
  docstring_importer_def shadow_tree_def square_first_tree_def curly_first_tree_def
  two_routers_def

lemmas run_eval =
  load_routes_def collect_def traverse_def visit_dir_def visit_file_def include_router_def
  log_def emit_def add_tag_def Let_def registrations_def

lemmas entries_eval = dir_entries_def file_entries_def passes_skip_rules_def

section \<open>The bracket search\<close>

lemma search_route_None: "search_bracket_group ''route'' = None"
  by simp

lemma group_upto_close_decomp:
  "group_upto_close cs = Some g \<Longrightarrow>
     \<exists>post. cs = g @ '']'' @ post \<and> CHR '']'' \<notin> set g \<and> CHR 0x0A \<notin> set g"
  by (induction cs arbitrary: g) (auto split: if_splits)

lemma group_upto_close_complete:
  "CHR '']'' \<notin> set g \<Longrightarrow> CHR 0x0A \<notin> set g \<Longrightarrow>
     group_upto_close (g @ CHR '']'' # post) = Some g"
  by (induction g) auto

text \<open>What the search returns stands between brackets in the stem, and holds no line feed.\<close>

lemma search_bracket_group_sound:
  "search_bracket_group st = Some g \<Longrightarrow>
     \<exists>pre post. st = pre @ ''['' @ g @ '']'' @ post \<and> CHR '']'' \<notin> set g \<and> CHR 0x0A \<notin> set g"
proof (induction st)
  case Nil
  then show ?case by simp
next
  case (Cons c cs)
  show ?case
  proof (cases "c = CHR ''['' \<and> group_upto_close cs \<noteq> None")
    case True
    then obtain g' where g': "group_upto_close cs = Some g'" by auto
    with True Cons.prems have "g' = g" by simp
    with g' obtain post
      where "cs = g @ '']'' @ post" "CHR '']'' \<notin> set g" "CHR 0x0A \<notin> set g"
      using group_upto_close_decomp by blast
    with True
    have "c # cs = [] @ ''['' @ g @ '']'' @ post \<and> CHR '']'' \<notin> set g \<and> CHR 0x0A \<notin> set g"
      by simp
    then show ?thesis by blast
  next
    case False
    with Cons.prems have "search_bracket_group cs = Some g"
      by (auto split: if_splits option.splits)
    then obtain pre post
      where "cs = pre @ ''['' @ g @ '']'' @ post" "CHR '']'' \<notin> set g" "CHR 0x0A \<notin> set g"
      using Cons.IH by blast
    then
    have "c # cs = (c # pre) @ ''['' @ g @ '']'' @ post \<and> CHR '']'' \<notin> set g \<and> CHR 0x0A \<notin> set g"
      by simp
    then show ?thesis by blast
  qed
qed

text \<open>The first opening bracket that is closed on its line is the one that counts.\<close>

lemma search_bracket_group_first:
  "CHR ''['' \<notin> set pre \<Longrightarrow> CHR '']'' \<notin> set g \<Longrightarrow> CHR 0x0A \<notin> set g \<Longrightarrow>
     search_bracket_group (pre @ ''['' @ g @ '']'' @ post) = Some g"
  by (induction pre) (auto simp: group_upto_close_complete)

lemma stem_route_path_spec:
  "stem_route_path st =
     (if st = ''route'' then []
      else case search_bracket_group st of
             Some param \<Rightarrow> ''/{'' @ param @ ''}''
           | None \<Rightarrow> ''/'' @ st)"
  by (simp add: stem_route_path_def split: option.splits)

text \<open>
  The search against the pattern said without it: the search finds nothing exactly when
  the stem has no bracketed group, and what it finds is the inner text of the first one.
\<close>

lemma closes_on_line_iff: "closes_on_line s \<longleftrightarrow> group_upto_close s \<noteq> None"
proof (induction s)
  case Nil
  show ?case by (simp add: closes_on_line_def)
next
  case (Cons c cs)
  show ?case
  proof (cases "c = CHR '']''")
    case True
    have "c # cs = [] @ '']'' @ cs \<and> CHR 0x0A \<notin> set []"
      using True by simp
    then have "closes_on_line (c # cs)"
      unfolding closes_on_line_def by blast
    with True show ?thesis by simp
  next
    case False
    have step: "closes_on_line (c # cs) \<longleftrightarrow> c \<noteq> CHR 0x0A \<and> closes_on_line cs"
    proof
      assume "closes_on_line (c # cs)"
      then obtain g post where g: "c # cs = g @ '']'' @ post" "CHR 0x0A \<notin> set g"
        unfolding closes_on_line_def by blast
      with False obtain g' where g': "g = c # g'"
        by (cases g) auto
      with g have "cs = g' @ '']'' @ post \<and> CHR 0x0A \<notin> set g'" and "c \<noteq> CHR 0x0A"
        by auto
      then show "c \<noteq> CHR 0x0A \<and> closes_on_line cs"
        unfolding closes_on_line_def by blast
    next
      assume a: "c \<noteq> CHR 0x0A \<and> closes_on_line cs"
      then obtain g post where "cs = g @ '']'' @ post" "CHR 0x0A \<notin> set g"
        unfolding closes_on_line_def by blast
      with a have "c # cs = (c # g) @ '']'' @ post \<and> CHR 0x0A \<notin> set (c # g)"
        by auto
      then show "closes_on_line (c # cs)"
        unfolding closes_on_line_def by blast
    qed
    show ?thesis
      using False by (simp add: step Cons.IH)
  qed
qed

lemma has_bracketed_group_iff:
  "has_bracketed_group st \<longleftrightarrow> (\<exists>p1 p2. st = p1 @ ''['' @ p2 \<and> closes_on_line p2)"
  unfolding has_bracketed_group_def closes_on_line_def by blast

lemma search_None_iff: "search_bracket_group st = None \<longleftrightarrow> \<not> has_bracketed_group st"
proof (induction st)
  case Nil
  show ?case by (simp add: has_bracketed_group_def)
next
  case (Cons c cs)
  have split: "has_bracketed_group (c # cs) \<longleftrightarrow>
      (c = CHR ''['' \<and> closes_on_line cs) \<or> has_bracketed_group cs"
  proof
    assume "has_bracketed_group (c # cs)"
    then obtain p1 p2 where p: "c # cs = p1 @ ''['' @ p2" "closes_on_line p2"
      unfolding has_bracketed_group_iff by blast
    show "(c = CHR ''['' \<and> closes_on_line cs) \<or> has_bracketed_group cs"
    proof (cases p1)
      case Nil
      with p show ?thesis by simp
    next
      case (Cons a p1')
      with p have "cs = p1' @ ''['' @ p2" by simp
      with p(2) show ?thesis
        unfolding has_bracketed_group_iff by blast
    qed
  next
    assume "(c = CHR ''['' \<and> closes_on_line cs) \<or> has_bracketed_group cs"
    then show "has_bracketed_group (c # cs)"
    proof
      assume "c = CHR ''['' \<and> closes_on_line cs"
      then have "c # cs = [] @ ''['' @ cs \<and> closes_on_line cs" by simp
      then show ?thesis
        unfolding has_bracketed_group_iff by blast
    next
      assume "has_bracketed_group cs"
      then obtain p1 p2 where "cs = p1 @ ''['' @ p2" "closes_on_line p2"
        unfolding has_bracketed_group_iff by blast
      then have "c # cs = (c # p1) @ ''['' @ p2 \<and> closes_on_line p2" by simp
      then show ?thesis
        unfolding has_bracketed_group_iff by blast
    qed
  qed
  show ?case
    by (auto simp: split closes_on_line_iff Cons.IH split: option.splits)
qed

lemma first_bracketed_group_search:
  "first_bracketed_group st g \<longleftrightarrow> search_bracket_group st = Some g"
proof
  assume "search_bracket_group st = Some g"
  then show "first_bracketed_group st g"
  proof (induction st)
    case Nil
    then show ?case by simp
  next
    case (Cons c cs)
    show ?case
    proof (cases "c = CHR ''['' \<and> group_upto_close cs \<noteq> None")
      case True
      then obtain g' where g': "group_upto_close cs = Some g'" by auto
      with True Cons.prems have "g' = g" by simp
      with g' obtain post
        where "cs = g @ '']'' @ post" "CHR '']'' \<notin> set g" "CHR 0x0A \<notin> set g"
        using group_upto_close_decomp by blast
      with True
      have "c # cs = [] @ ''['' @ g @ '']'' @ post \<and> CHR '']'' \<notin> set g \<and> CHR 0x0A \<notin> set g
          \<and> (\<forall>p1 p2. [] = p1 @ ''['' @ p2 \<longrightarrow>
                \<not> closes_on_line (p2 @ ''['' @ g @ '']'' @ post))"
        by simp
      then show ?thesis
        unfolding first_bracketed_group_def by blast
    next
      case False
      with Cons.prems have "search_bracket_group cs = Some g"
        by (auto split: if_splits option.splits)
      then have "first_bracketed_group cs g" by (rule Cons.IH)
      then obtain pre post where
        cs: "cs = pre @ ''['' @ g @ '']'' @ post" and g: "CHR '']'' \<notin> set g" "CHR 0x0A \<notin> set g"
        and earlier: "\<forall>p1 p2. pre = p1 @ ''['' @ p2 \<longrightarrow>
                \<not> closes_on_line (p2 @ ''['' @ g @ '']'' @ post)"
        unfolding first_bracketed_group_def by blast
      have "\<not> closes_on_line (p2 @ ''['' @ g @ '']'' @ post)" if "c # pre = p1 @ ''['' @ p2" for p1 p2
      proof (cases p1)
        case Nil
        with that have "c = CHR ''[''" and "p2 = pre" by simp_all
        with False cs show ?thesis by (simp add: closes_on_line_iff)
      next
        case (Cons a p1')
        with that have "pre = p1' @ ''['' @ p2" by simp
        with earlier show ?thesis by blast
      qed
      with cs g
      have "c # cs = (c # pre) @ ''['' @ g @ '']'' @ post \<and> CHR '']'' \<notin> set g \<and> CHR 0x0A \<notin> set g
          \<and> (\<forall>p1 p2. c # pre = p1 @ ''['' @ p2 \<longrightarrow>
                \<not> closes_on_line (p2 @ ''['' @ g @ '']'' @ post))"
        by simp
      then show ?thesis
        unfolding first_bracketed_group_def by blast
    qed
  qed
next
  assume "first_bracketed_group st g"
  then obtain pre post where
    st: "st = pre @ ''['' @ g @ '']'' @ post" and g: "CHR '']'' \<notin> set g" "CHR 0x0A \<notin> set g"
    and earlier: "\<forall>p1 p2. pre = p1 @ ''['' @ p2 \<longrightarrow>
                \<not> closes_on_line (p2 @ ''['' @ g @ '']'' @ post)"
    unfolding first_bracketed_group_def by blast
  have "search_bracket_group (pre @ ''['' @ g @ '']'' @ post) = Some g"
    using earlier
  proof (induction pre)
    case Nil
    show ?case using g by (simp add: group_upto_close_complete)
  next
    case (Cons c pre)
    have e': "\<forall>p1 p2. pre = p1 @ ''['' @ p2 \<longrightarrow>
                \<not> closes_on_line (p2 @ ''['' @ g @ '']'' @ post)"
    proof (intro allI impI)
      fix p1 p2 assume "pre = p1 @ ''['' @ p2"
      then have "c # pre = (c # p1) @ ''['' @ p2" by simp
      with Cons.prems show "\<not> closes_on_line (p2 @ ''['' @ g @ '']'' @ post)" by blast
    qed
    have ih: "search_bracket_group (pre @ ''['' @ g @ '']'' @ post) = Some g"
      using Cons.IH e' by blast
    show ?case
    proof (cases "c = CHR ''[''")
      case True
      then have "c # pre = [] @ ''['' @ pre" by simp
      with Cons.prems have "\<not> closes_on_line (pre @ ''['' @ g @ '']'' @ post)" by blast
      then have "group_upto_close (pre @ ''['' @ g @ '']'' @ post) = None"
        by (simp add: closes_on_line_iff)
      with True ih show ?thesis by simp
    next
      case False
      with ih show ?thesis by simp
    qed
  qed
  with st show "search_bracket_group st = Some g" by simp
qed

lemma first_bracketed_groupI:
  assumes "CHR ''['' \<notin> set pre" and "CHR '']'' \<notin> set g" and "CHR 0x0A \<notin> set g"
  shows "first_bracketed_group (pre @ ''['' @ g @ '']'' @ post) g"
proof -
  have "search_bracket_group (pre @ ''['' @ g @ '']'' @ post) = Some g"
    using assms by (rule search_bracket_group_first)
  then show ?thesis
    by (simp only: first_bracketed_group_search)
qed

section \<open>One file of the traversal\<close>

lemma visit_file_loaded:
  assumes "passes_skip_rules file"
    and "import_module (import_name root file) = Module (Some router)"
  shows "visit_file directory auto_tags verbose import_module root file (w, routers) =
     Inr (if auto_tags
          then add_tag directory (route_path_of directory root file) router
                 (emit (ImportModule (import_name root file)) w)
          else emit (ImportModule (import_name root file)) w,
          routers @ [(route_path_of directory root file, router)])"
  using assms by (simp add: visit_file_def passes_skip_rules_def Let_def)

lemma passes_route_py: "passes_skip_rules ''route.py''"
  by (simp add: passes_skip_rules_def string_eval)

lemma passes_user_id_py: "passes_skip_rules ''[user_id].py''"
  by (simp add: passes_skip_rules_def string_eval)

lemma passes_profile_py: "passes_skip_rules ''profile.py''"
  by (simp add: passes_skip_rules_def string_eval)

lemma passes_user_id_s_py: "passes_skip_rules ''user[id]s.py''"
  by (simp add: passes_skip_rules_def string_eval)

text \<open>
  C6. For a file that passes the skip rules and whose module has a router, the route path
  entered in \<^verbatim>\<open>routers\<close> is the directory part followed by a segment that is:
  nothing when the stem is \<^verbatim>\<open>route\<close>; \<^verbatim>\<open>/{param}\<close>, with \<^verbatim>\<open>param\<close> the
  inner text of the first bracketed group of the stem, when the stem has a bracketed
  group; and \<^verbatim>\<open>/\<close> followed by the stem otherwise. A stem that has a bracketed group
  has a first one, so the three cases cover every stem.
\<close>

theorem resolve_path_final_segment:
  assumes "passes_skip_rules file"
    and "import_module (import_name root file) = Module (Some router)"
  shows "\<exists>w' segment.
     visit_file directory auto_tags verbose import_module root file (w, routers) =
       Inr (w', routers @ [(directory_route_path directory root file @ segment, router)])
     \<and> (stem file = ''route'' \<longrightarrow> segment = [])
     \<and> (\<forall>param. first_bracketed_group (stem file) param \<longrightarrow> segment = ''/{'' @ param @ ''}'')
     \<and> (stem file \<noteq> ''route'' \<and> \<not> has_bracketed_group (stem file) \<longrightarrow>
          segment = ''/'' @ stem file)
     \<and> (has_bracketed_group (stem file) \<longleftrightarrow> (\<exists>param. first_bracketed_group (stem file) param))"
proof -
  let ?seg = "stem_route_path (stem file)"
  have v: "\<exists>w'. visit_file directory auto_tags verbose import_module root file (w, routers) =
       Inr (w', routers @ [(directory_route_path directory root file @ ?seg, router)])"
    using visit_file_loaded [where import_module = import_module, OF assms]
    by (simp add: route_path_of_def)
  have a: "stem file = ''route'' \<longrightarrow> ?seg = []"
    by (simp add: stem_route_path_def)
  have b: "\<forall>param. first_bracketed_group (stem file) param \<longrightarrow> ?seg = ''/{'' @ param @ ''}''"
    by (simp add: first_bracketed_group_search stem_route_path_def)
  have c: "stem file \<noteq> ''route'' \<and> \<not> has_bracketed_group (stem file) \<longrightarrow> ?seg = ''/'' @ stem file"
  proof
    assume h: "stem file \<noteq> ''route'' \<and> \<not> has_bracketed_group (stem file)"
    then have "search_bracket_group (stem file) = None"
      by (simp add: search_None_iff)
    with h show "?seg = ''/'' @ stem file"
      by (simp add: stem_route_path_def)
  qed
  have d: "has_bracketed_group (stem file) \<longleftrightarrow> (\<exists>param. first_bracketed_group (stem file) param)"
    using search_None_iff [of "stem file"] by (auto simp: first_bracketed_group_search)
  show ?thesis
    using v a b c d by blast
qed

theorem resolve_path_final_segment_witness:
  "(\<exists>w'. visit_file api_dir True False one_router users_dir ''route.py'' (fresh_world, []) =
          Inr (w', [(''users'', 0)]))
   \<and> first_bracketed_group ''[user_id]'' ''user_id''
   \<and> (\<exists>w'. visit_file api_dir True False one_router users_dir ''[user_id].py''
            (fresh_world, []) =
          Inr (w', [(''users/{user_id}'', 0)]))
   \<and> \<not> has_bracketed_group ''profile''
   \<and> (\<exists>w'. visit_file api_dir True False one_router
            \<lparr>anchored = False, parts = [''api'', ''users'', ''[user_id]'']\<rparr> ''profile.py''
            (fresh_world, []) =
          Inr (w', [(''users/{user_id}/profile'', 0)]))"
proof -
  have imp: "one_router m = Module (Some 0)" for m
    by (simp add: one_router_def)
  have d1: "directory_route_path api_dir users_dir ''route.py'' = ''users''"
    by (simp add: path_eval string_eval example_eval)
  have d2: "directory_route_path api_dir users_dir ''[user_id].py'' = ''users''"
    by (simp add: path_eval string_eval example_eval)
  have d3: "directory_route_path api_dir
      \<lparr>anchored = False, parts = [''api'', ''users'', ''[user_id]'']\<rparr> ''profile.py''
      = ''users/{user_id}''"
    by (simp add: path_eval string_eval example_eval)
  have s1: "stem ''route.py'' = ''route''" and s2: "stem ''[user_id].py'' = ''[user_id]''"
    and s3: "stem ''profile.py'' = ''profile''"
    by (simp_all add: string_eval)
  have g2: "first_bracketed_group ''[user_id]'' ''user_id''"
    using first_bracketed_groupI [of "[]" "''user_id''" "[]"] by simp
  have g3: "\<not> has_bracketed_group ''profile''"
    using search_None_iff [of "''profile''"] by simp
  have c1: "\<exists>w'. visit_file api_dir True False one_router users_dir ''route.py''
      (fresh_world, []) = Inr (w', [(''users'', 0)])"
    using resolve_path_final_segment [where import_module = one_router and directory = api_dir
        and root = users_dir and auto_tags = True and verbose = False and w = fresh_world
        and routers = "[]", OF passes_route_py imp]
    by (auto simp: d1 s1)
  have c2: "\<exists>w'. visit_file api_dir True False one_router users_dir ''[user_id].py''
      (fresh_world, []) = Inr (w', [(''users/{user_id}'', 0)])"
    using resolve_path_final_segment [where import_module = one_router and directory = api_dir
        and root = users_dir and auto_tags = True and verbose = False and w = fresh_world
        and routers = "[]", OF passes_user_id_py imp] g2
    by (auto simp: d2 s2)
  have c3: "\<exists>w'. visit_file api_dir True False one_router
      \<lparr>anchored = False, parts = [''api'', ''users'', ''[user_id]'']\<rparr> ''profile.py''
      (fresh_world, []) = Inr (w', [(''users/{user_id}/profile'', 0)])"
    using resolve_path_final_segment [where import_module = one_router and directory = api_dir
        and root = "\<lparr>anchored = False, parts = [''api'', ''users'', ''[user_id]'']\<rparr>"
        and auto_tags = True and verbose = False and w = fresh_world and routers = "[]",
        OF passes_profile_py imp] g3
    by (auto simp: d3 s3)
  show ?thesis
    using c1 g2 c2 g3 c3 by blast
qed

text \<open>
  C10. For a file that passes the skip rules and whose stem holds a bracketed group, the
  route path entered in \<^verbatim>\<open>routers\<close> ends in \<^verbatim>\<open>/{name}\<close>, where \<^verbatim>\<open>name\<close> is
  the text of the first group; the characters of the stem before and after the group
  appear nowhere in the route path.
\<close>

theorem bracket_stem_discards_literals:
  assumes "passes_skip_rules file"
    and "import_module (import_name root file) = Module (Some router)"
    and "stem file = pre @ ''['' @ nm @ '']'' @ post"
    and "CHR ''['' \<notin> set pre" and "CHR '']'' \<notin> set nm" and "CHR 0x0A \<notin> set nm"
  shows "\<exists>w'. visit_file directory auto_tags verbose import_module root file (w, routers) =
     Inr (w', routers @
       [(directory_route_path directory root file @ ''/{'' @ nm @ ''}'', router)])"
proof -
  have "search_bracket_group (stem file) = Some nm"
    using assms(3-6) search_bracket_group_first by simp
  then have "stem_route_path (stem file) = ''/{'' @ nm @ ''}''"
    by (simp add: stem_route_path_def)
  then show ?thesis
    using visit_file_loaded [where import_module = import_module, OF assms(1,2)]
    by (simp add: route_path_of_def)
qed

theorem bracket_stem_discards_literals_witness:
  "\<exists>w'. visit_file api_dir True False one_router
          \<lparr>anchored = False, parts = [''api'', ''users'']\<rparr> ''user[id]s.py'' (fresh_world, []) =
        Inr (w', [(''users/{id}'', 0)])"
proof -
  have imp: "one_router (import_name \<lparr>anchored = False, parts = [''api'', ''users'']\<rparr>
      ''user[id]s.py'') = Module (Some 0)"
    by (simp add: one_router_def)
  have st: "stem ''user[id]s.py'' = ''user'' @ ''['' @ ''id'' @ '']'' @ ''s''"
    by (simp add: string_eval)
  have d: "directory_route_path api_dir \<lparr>anchored = False, parts = [''api'', ''users'']\<rparr>
      ''user[id]s.py'' = ''users''"
    by (simp add: path_eval string_eval example_eval)
  show ?thesis
    using bracket_stem_discards_literals [where import_module = one_router
        and root = "\<lparr>anchored = False, parts = [''api'', ''users'']\<rparr>"
        and directory = api_dir and auto_tags = True and verbose = False and w = fresh_world
        and routers = "[]", OF passes_user_id_s_py imp st]
      d by simp
qed

section \<open>Loops\<close>


lemma for_each_append:
  "for_each body (xs @ ys) s =
     (case for_each body xs s of Inl e \<Rightarrow> Inl e | Inr s' \<Rightarrow> for_each body ys s')"
  by (induction xs arbitrary: s) (auto split: sum.splits)

lemma for_each_concat:
  "for_each body (concat xss) s = for_each (\<lambda>xs. for_each body xs) xss s"
  by (induction xss arbitrary: s) (auto simp: for_each_append split: sum.splits)

lemma for_each_cong:
  "(\<And>x s. x \<in> set xs \<Longrightarrow> f x s = g x s) \<Longrightarrow> for_each f xs s = for_each g xs s"
  by (induction xs arbitrary: s) (auto split: sum.splits)

lemma for_each_world_rel:
  assumes refl: "\<And>w. R w w"
    and trans: "\<And>a b c. R a b \<Longrightarrow> R b c \<Longrightarrow> R a c"
    and step: "\<And>x w rs. x \<in> set xs \<Longrightarrow> R w (state_world (body x (w, rs)))"
  shows "R w (state_world (for_each body xs (w, rs)))"
  using step
proof (induction xs arbitrary: w rs)
  case Nil
  show ?case by (simp add: refl)
next
  case (Cons x xs)
  have now: "R w (state_world (body x (w, rs)))"
    using Cons.prems by simp
  show ?case
  proof (cases "body x (w, rs)")
    case (Inl e)
    with now show ?thesis by simp
  next
    case (Inr s')
    obtain w' rs' where s': "s' = (w', rs')" by (cases s')
    have "R w' (state_world (for_each body xs (w', rs')))"
      using Cons.IH Cons.prems by simp
    with now Inr s' show ?thesis
      using trans by fastforce
  qed
qed

lemma olai_refl: "only_logs_and_imports w w"
  by (simp add: only_logs_and_imports_def)

lemma olai_trans:
  "only_logs_and_imports a b \<Longrightarrow> only_logs_and_imports b c \<Longrightarrow> only_logs_and_imports a c"
  unfolding only_logs_and_imports_def by (metis append.assoc list_all_append)

lemma olai_log: "only_logs_and_imports w (log m v w)"
  by (simp add: only_logs_and_imports_def log_def emit_def)

lemma visit_file_olai:
  "only_logs_and_imports w (state_world (visit_file d a v imp root f (w, rs)))"
  by (simp add: visit_file_def only_logs_and_imports_def log_def emit_def add_tag_def Let_def
      split: module_result.splits option.splits)

lemma visit_dir_olai:
  "only_logs_and_imports w (state_world (visit_dir d a v imp triple (w, rs)))"
proof (cases triple)
  case (fields root ds fs)
  show ?thesis
  proof (cases "startswith (name root) ''__''")
    case True
    with fields show ?thesis by (simp add: visit_dir_def olai_refl)
  next
    case False
    with fields show ?thesis
      using for_each_world_rel [where R = only_logs_and_imports, OF olai_refl olai_trans visit_file_olai]
      by (simp add: visit_dir_def)
  qed
qed

lemma traverse_olai:
  "only_logs_and_imports w (state_world (traverse d a v imp t w))"
  unfolding traverse_def
  by (rule for_each_world_rel [where R = only_logs_and_imports, OF olai_refl olai_trans visit_dir_olai])

lemma state_world_collect:
  "state_world (collect d a v imp t w) = state_world (traverse d a v imp t w)"
  by (auto simp: collect_def split: sum.splits)

lemma collect_olai:
  "only_logs_and_imports w (state_world (collect d a v imp t w))"
  by (simp add: state_world_collect traverse_olai)

section \<open>Registration\<close>

lemma registrations_append [simp]:
  "registrations (xs @ ys) = registrations xs @ registrations ys"
  by (simp add: registrations_def)

lemma registrations_Nil [simp]: "registrations [] = []"
  by (simp add: registrations_def)

lemma registrations_Log [simp]: "registrations [Log l m] = []"
  by (simp add: registrations_def)

lemma registrations_none:
  "list_all (\<lambda>e. \<not> is_IncludeRouter e) tr \<Longrightarrow> registrations tr = []"
proof (induction tr)
  case Nil
  show ?case by simp
next
  case (Cons e tr)
  then show ?case by (cases e) (simp_all add: registrations_def)
qed

lemma olai_registrations:
  "only_logs_and_imports w w' \<Longrightarrow> registrations (trace w') = registrations (trace w)"
  by (auto simp: only_logs_and_imports_def registrations_none)

lemma registrations_registration_effects [simp]:
  "registrations (registration_effects verbose tg entry) = [(snd entry, fst entry, tg (snd entry))]"
  by (simp add: registration_effects_def registrations_def)

lemma no_import_registration_effects [simp]:
  "list_all (\<lambda>e. \<not> is_ImportModule e) (registration_effects verbose tg entry)"
  by (simp add: registration_effects_def)

text \<open>One pass of the registration loop, accepted or refused by the app.\<close>

lemma include_router_accepted:
  assumes "app (snd entry) (fst entry) (tags w (snd entry))"
  shows "include_router app verbose entry w =
     Inr (w\<lparr>trace := trace w @ registration_effects verbose (tags w) entry\<rparr>)"
  using assms
  by (cases entry) (simp add: include_router_def registration_effects_def log_def emit_def)

lemma include_router_refused:
  assumes "\<not> app (snd entry) (fst entry) (tags w (snd entry))"
  shows "include_router app verbose entry w =
     Inl (IncludeRouterError (snd entry) (fst entry),
          w\<lparr>trace := trace w
             @ [Log (if verbose then INFO else DEBUG) (LoadedRouter (''/'' @ fst entry))]\<rparr>)"
  using assms
  by (cases entry) (simp add: include_router_def log_def emit_def)

text \<open>
  The registration loop as a whole: it leaves the tag lists alone, imports nothing,
  registers the entries in their order with the route path as the prefix, all of them
  when it completes and the ones before the refused entry when it raises.
\<close>

lemma registration_loop:
  "tags (world_of (for_each (include_router app verbose) rs w)) = tags w
   \<and> (\<exists>after. trace (world_of (for_each (include_router app verbose) rs w)) = trace w @ after
        \<and> list_all (\<lambda>e. \<not> is_ImportModule e) after
        \<and> prefix (registrations after)
             (map (\<lambda>(route_path, router). (router, route_path, tags w router)) rs)
        \<and> (\<not> isl (for_each (include_router app verbose) rs w) \<longrightarrow>
             registrations after
               = map (\<lambda>(route_path, router). (router, route_path, tags w router)) rs))"
proof (induction rs arbitrary: w)
  case Nil
  show ?case by simp
next
  case (Cons r rs)
  show ?case
  proof (cases "app (snd r) (fst r) (tags w (snd r))")
    case False
    let ?after = "[Log (if verbose then INFO else DEBUG) (LoadedRouter (''/'' @ fst r))]"
    have run: "for_each (include_router app verbose) (r # rs) w =
        Inl (IncludeRouterError (snd r) (fst r), w\<lparr>trace := trace w @ ?after\<rparr>)"
      by (simp only: for_each.simps include_router_refused [where app = app, OF False]
          sum.case)
    have "trace (world_of (for_each (include_router app verbose) (r # rs) w)) = trace w @ ?after
        \<and> list_all (\<lambda>e. \<not> is_ImportModule e) ?after
        \<and> prefix (registrations ?after)
             (map (\<lambda>(route_path, router). (router, route_path, tags w router)) (r # rs))
        \<and> (\<not> isl (for_each (include_router app verbose) (r # rs) w) \<longrightarrow>
             registrations ?after
               = map (\<lambda>(route_path, router). (router, route_path, tags w router)) (r # rs))"
      unfolding run by simp
    moreover have "tags (world_of (for_each (include_router app verbose) (r # rs) w)) = tags w"
      unfolding run by simp
    ultimately show ?thesis by blast
  next
    case True
    let ?effs = "registration_effects verbose (tags w) r"
    let ?w1 = "w\<lparr>trace := trace w @ ?effs\<rparr>"
    let ?f = "\<lambda>(route_path, router). (router, route_path, tags w router)"
    have run: "for_each (include_router app verbose) (r # rs) w =
        for_each (include_router app verbose) rs ?w1"
      by (simp only: for_each.simps include_router_accepted [where app = app, OF True]
          sum.case)
    have t1: "tags ?w1 = tags w"
      by simp
    from Cons.IH [of ?w1] obtain after where
      tg: "tags (world_of (for_each (include_router app verbose) rs ?w1)) = tags ?w1"
      and tr: "trace (world_of (for_each (include_router app verbose) rs ?w1)) = trace ?w1 @ after"
      and ni: "list_all (\<lambda>e. \<not> is_ImportModule e) after"
      and pre: "prefix (registrations after)
          (map (\<lambda>(route_path, router). (router, route_path, tags ?w1 router)) rs)"
      and all: "\<not> isl (for_each (include_router app verbose) rs ?w1) \<longrightarrow>
          registrations after
            = map (\<lambda>(route_path, router). (router, route_path, tags ?w1 router)) rs"
      by blast
    have "trace (world_of (for_each (include_router app verbose) (r # rs) w))
          = trace w @ (?effs @ after)
        \<and> list_all (\<lambda>e. \<not> is_ImportModule e) (?effs @ after)
        \<and> prefix (registrations (?effs @ after)) (map ?f (r # rs))
        \<and> (\<not> isl (for_each (include_router app verbose) (r # rs) w) \<longrightarrow>
             registrations (?effs @ after) = map ?f (r # rs))"
      unfolding run using tr ni pre all by (simp add: case_prod_beta)
    moreover have "tags (world_of (for_each (include_router app verbose) (r # rs) w)) = tags w"
      unfolding run using tg by simp
    ultimately show ?thesis by blast
  qed
qed

lemma registration_loop_error:
  "for_each (include_router app verbose) rs w = Inl (e, w') \<Longrightarrow>
     \<exists>router pfx. e = IncludeRouterError router pfx"
proof (induction rs arbitrary: w)
  case Nil
  then show ?case by simp
next
  case (Cons r rs)
  show ?case
  proof (cases "app (snd r) (fst r) (tags w (snd r))")
    case True
    with Cons.prems show ?thesis
      using Cons.IH by (simp add: include_router_accepted)
  next
    case False
    with Cons.prems show ?thesis
      by (auto simp: include_router_refused)
  qed
qed

lemma registration_loop_accepting:
  assumes "\<forall>router pfx ts. app router pfx ts"
  shows "\<not> isl (for_each (include_router app verbose) rs w)"
proof (induction rs arbitrary: w)
  case Nil
  show ?case by simp
next
  case (Cons r rs)
  have "app (snd r) (fst r) (tags w (snd r))"
    using assms by blast
  then show ?case
    using Cons.IH by (simp add: include_router_accepted)
qed

text \<open>The traversal raises only what the importer raised.\<close>

lemma for_each_error:
  "for_each body xs s = Inl e \<Longrightarrow> \<exists>x s'. body x s' = Inl e"
proof (induction xs arbitrary: s)
  case Nil
  then show ?case by simp
next
  case (Cons x xs)
  show ?case
  proof (cases "body x s")
    case (Inl e')
    with Cons.prems show ?thesis by auto
  next
    case (Inr s')
    with Cons.prems have "for_each body xs s' = Inl e" by simp
    then show ?thesis by (rule Cons.IH)
  qed
qed

lemma visit_file_error:
  "visit_file d a v imp root f s = Inl (e, w') \<Longrightarrow> \<exists>m. e = ModuleLoadError m"
  by (cases s)
    (auto simp: visit_file_def Let_def split: if_splits module_result.splits option.splits)

lemma visit_dir_error:
  assumes "visit_dir d a v imp triple s = Inl (e, w')"
  shows "\<exists>m. e = ModuleLoadError m"
proof -
  obtain root ds fs where t: "triple = (root, ds, fs)" by (cases triple)
  from assms t have "for_each (visit_file d a v imp root) fs s = Inl (e, w')"
    by (simp add: visit_dir_def split: if_splits)
  then obtain f s' where "visit_file d a v imp root f s' = Inl (e, w')"
    using for_each_error [of "visit_file d a v imp root" fs s "(e, w')"] by blast
  then show ?thesis by (rule visit_file_error)
qed

lemma collect_error:
  assumes "collect d a v imp t w = Inl (e, w')"
  shows "\<exists>m. e = ModuleLoadError m"
proof -
  from assms have "for_each (visit_dir d a v imp) (walk d t) (w, []) = Inl (e, w')"
    by (auto simp: collect_def traverse_def split: sum.splits)
  then obtain x s' where "visit_dir d a v imp x s' = Inl (e, w')"
    using for_each_error [of "visit_dir d a v imp" "walk d t" "(w, [])" "(e, w')"] by blast
  then show ?thesis by (rule visit_dir_error)
qed

text \<open>How a run of \<^verbatim>\<open>load_routes\<close> ends, by how its two phases end.\<close>

lemma load_routes_collect_raises:
  "collect d a v imp t (log (LoadingRoutes d) v w) = Inl ew \<Longrightarrow>
     load_routes app d a v imp t w = Inl ew"
  by (simp add: load_routes_def)

lemma load_routes_cases:
  obtains (traversal) ew where
      "collect d a v imp t (log (LoadingRoutes d) v w) = Inl ew"
      "load_routes app d a v imp t w = Inl ew"
    | (registration) w1 rs ew where
      "collect d a v imp t (log (LoadingRoutes d) v w) = Inr (w1, rs)"
      "for_each (include_router app v) rs w1 = Inl ew"
      "load_routes app d a v imp t w = Inl ew"
    | (completed) w1 rs w2 where
      "collect d a v imp t (log (LoadingRoutes d) v w) = Inr (w1, rs)"
      "for_each (include_router app v) rs w1 = Inr w2"
      "load_routes app d a v imp t w = Inr (log RoutesLoaded v w2)"
proof (cases "collect d a v imp t (log (LoadingRoutes d) v w)")
  case (Inl ew)
  then show ?thesis
    using traversal by (simp add: load_routes_def)
next
  case (Inr s)
  obtain w1 rs where s: "s = (w1, rs)" by (cases s)
  show ?thesis
  proof (cases "for_each (include_router app v) rs w1")
    case (Inl ew)
    with Inr s show ?thesis
      using registration by (simp add: load_routes_def)
  next
    case r: (Inr w2)
    with Inr s show ?thesis
      using completed by (simp add: load_routes_def)
  qed
qed

lemma collect_before:
  assumes "collect d a v imp t (log (LoadingRoutes d) v w) = Inr (w1, rs)"
  shows "\<exists>before. trace w1 = trace w @ before \<and> registrations before = []"
proof -
  have "only_logs_and_imports (log (LoadingRoutes d) v w) w1"
    using collect_olai [of "log (LoadingRoutes d) v w" d a v imp t] assms by simp
  then have "only_logs_and_imports w w1"
    using olai_log olai_trans by blast
  then show ?thesis
    by (auto simp: only_logs_and_imports_def registrations_none)
qed

lemma collect_raises_no_registration:
  assumes "collect d a v imp t (log (LoadingRoutes d) v w) = Inl (e, w')"
  shows "registrations (trace w') = registrations (trace w)"
proof -
  have "only_logs_and_imports (log (LoadingRoutes d) v w) w'"
    using collect_olai [of "log (LoadingRoutes d) v w" d a v imp t] assms by simp
  then have "only_logs_and_imports w w'"
    using olai_log olai_trans by blast
  then show ?thesis
    by (rule olai_registrations)
qed

text \<open>
  C1. The claim: every collected entry is registered with a prefix that is a slash
  followed by its route path. Below the relative directory \<^verbatim>\<open>api\<close> the file
  \<^verbatim>\<open>users/route.py\<close> is collected with the route path \<^verbatim>\<open>users\<close>; the run logs
  the path \<^verbatim>\<open>/users\<close> and calls \<^verbatim>\<open>include_router\<close> with the prefix
  \<^verbatim>\<open>users\<close>, without the slash. The app of the test suite records that call; an app
  that asserts a leading slash raises, and nothing is registered.
\<close>

theorem registered_prefix_lacks_slash:
  "routers_of (collect api_dir True True one_router (lone_file [''users''] ''route.py'')
       (log (LoadingRoutes api_dir) True fresh_world)) = [(''users'', 0)]
   \<and> trace (world_of (load_routes mock_app api_dir True True one_router
         (lone_file [''users''] ''route.py'') fresh_world))
       = [Log INFO (LoadingRoutes api_dir), ImportModule ''api.users.route'',
          Log INFO (LoadedRouter ''/users''), IncludeRouter 0 ''users'' [''users''],
          Log INFO RoutesLoaded]
   \<and> registrations (trace (world_of (load_routes mock_app api_dir True True one_router
         (lone_file [''users''] ''route.py'') fresh_world))) = [(0, ''users'', [''users''])]
   \<and> ''users'' \<noteq> ''/'' @ ''users''
   \<and> error_of (load_routes asserting_app api_dir True True one_router
         (lone_file [''users''] ''route.py'') fresh_world) = Some (IncludeRouterError 0 ''users'')
   \<and> registrations (trace (world_of (load_routes asserting_app api_dir True True one_router
         (lone_file [''users''] ''route.py'') fresh_world))) = []"
  by (simp add: run_eval path_eval string_eval example_eval)

text \<open>
  C9. When the traversal raises, the run raises the same exception in the same world,
  and that world holds no new \<^verbatim>\<open>include_router\<close> call: so it is for every run that
  ends with the exception of an import, and, on an app that accepts every call, for
  every run that raises. A run that completes has first collected and sorted the
  routers, with effects \<open>before\<close> among which there is no registration, and then made
  its registrations, one per collected entry, with effects \<open>after\<close> among which there
  is no import. A run in which the app refuses a call has completed the collection in
  the same way before its first registration.
\<close>

theorem no_registration_before_traversal_ends:
  "(collect directory auto_tags verbose import_module t (log (LoadingRoutes directory) verbose w)
        = Inl (e, w') \<longrightarrow>
      load_routes app directory auto_tags verbose import_module t w = Inl (e, w')
      \<and> registrations (trace w') = registrations (trace w))
   \<and> (load_routes app directory auto_tags verbose import_module t w
        = Inl (ModuleLoadError m, w') \<longrightarrow>
      registrations (trace w') = registrations (trace w))
   \<and> ((\<forall>router pfx ts. app router pfx ts) \<longrightarrow>
      load_routes app directory auto_tags verbose import_module t w = Inl (e, w') \<longrightarrow>
      registrations (trace w') = registrations (trace w))
   \<and> (load_routes app directory auto_tags verbose import_module t w = Inr w' \<longrightarrow>
      (\<exists>w1 routers before after.
         collect directory auto_tags verbose import_module t
           (log (LoadingRoutes directory) verbose w) = Inr (w1, routers)
         \<and> trace w1 = trace w @ before \<and> registrations before = []
         \<and> trace w' = trace w1 @ after \<and> list_all (\<lambda>e. \<not> is_ImportModule e) after
         \<and> registrations after =
             map (\<lambda>(route_path, router). (router, route_path, tags w1 router)) routers))
   \<and> (load_routes app directory auto_tags verbose import_module t w
        = Inl (IncludeRouterError refused pfx, w') \<longrightarrow>
      (\<exists>w1 routers before after.
         collect directory auto_tags verbose import_module t
           (log (LoadingRoutes directory) verbose w) = Inr (w1, routers)
         \<and> trace w1 = trace w @ before \<and> registrations before = []
         \<and> trace w' = trace w1 @ after \<and> list_all (\<lambda>e. \<not> is_ImportModule e) after
         \<and> prefix (registrations after)
             (map (\<lambda>(route_path, router). (router, route_path, tags w1 router)) routers)))"
proof (intro conjI impI)
  assume c: "collect directory auto_tags verbose import_module t
      (log (LoadingRoutes directory) verbose w) = Inl (e, w')"
  show "load_routes app directory auto_tags verbose import_module t w = Inl (e, w')"
    using c by (rule load_routes_collect_raises)
  show "registrations (trace w') = registrations (trace w)"
    using c by (rule collect_raises_no_registration)
next
  assume l: "load_routes app directory auto_tags verbose import_module t w
      = Inl (ModuleLoadError m, w')"
  show "registrations (trace w') = registrations (trace w)"
  proof (cases rule: load_routes_cases [of directory auto_tags verbose import_module t w app])
    case (traversal ew)
    with l show ?thesis
      using collect_raises_no_registration by simp
  next
    case (registration w1 rs ew)
    with l show ?thesis
      using registration_loop_error [of app verbose rs w1 "ModuleLoadError m" w'] by simp
  next
    case (completed w1 rs w2)
    with l show ?thesis by simp
  qed
next
  assume acc: "\<forall>router pfx ts. app router pfx ts"
    and l: "load_routes app directory auto_tags verbose import_module t w = Inl (e, w')"
  show "registrations (trace w') = registrations (trace w)"
  proof (cases rule: load_routes_cases [of directory auto_tags verbose import_module t w app])
    case (traversal ew)
    with l show ?thesis
      using collect_raises_no_registration by simp
  next
    case (registration w1 rs ew)
    then show ?thesis
      using registration_loop_accepting [OF acc, of verbose rs w1] by simp
  next
    case (completed w1 rs w2)
    with l show ?thesis by simp
  qed
next
  assume l: "load_routes app directory auto_tags verbose import_module t w = Inr w'"
  show "\<exists>w1 routers before after.
         collect directory auto_tags verbose import_module t
           (log (LoadingRoutes directory) verbose w) = Inr (w1, routers)
         \<and> trace w1 = trace w @ before \<and> registrations before = []
         \<and> trace w' = trace w1 @ after \<and> list_all (\<lambda>e. \<not> is_ImportModule e) after
         \<and> registrations after =
             map (\<lambda>(route_path, router). (router, route_path, tags w1 router)) routers"
  proof (cases rule: load_routes_cases [of directory auto_tags verbose import_module t w app])
    case (traversal ew)
    with l show ?thesis by simp
  next
    case (registration w1 rs ew)
    with l show ?thesis by simp
  next
    case (completed w1 rs w2)
    obtain before where b: "trace w1 = trace w @ before" "registrations before = []"
      using collect_before [OF completed(1)] by blast
    from registration_loop [of app verbose rs w1] completed(2)
    obtain after where a: "trace w2 = trace w1 @ after"
      "list_all (\<lambda>e. \<not> is_ImportModule e) after"
      "registrations after = map (\<lambda>(route_path, router). (router, route_path, tags w1 router)) rs"
      by auto
    let ?after = "after @ [Log (if verbose then INFO else DEBUG) RoutesLoaded]"
    have w': "w' = log RoutesLoaded verbose w2"
      using l completed(3) by simp
    have "trace w' = trace w1 @ ?after \<and> list_all (\<lambda>e. \<not> is_ImportModule e) ?after
        \<and> registrations ?after
          = map (\<lambda>(route_path, router). (router, route_path, tags w1 router)) rs"
      using a by (simp add: w' log_def emit_def)
    with completed(1) b show ?thesis by blast
  qed
next
  assume l: "load_routes app directory auto_tags verbose import_module t w
      = Inl (IncludeRouterError refused pfx, w')"
  show "\<exists>w1 routers before after.
         collect directory auto_tags verbose import_module t
           (log (LoadingRoutes directory) verbose w) = Inr (w1, routers)
         \<and> trace w1 = trace w @ before \<and> registrations before = []
         \<and> trace w' = trace w1 @ after \<and> list_all (\<lambda>e. \<not> is_ImportModule e) after
         \<and> prefix (registrations after)
             (map (\<lambda>(route_path, router). (router, route_path, tags w1 router)) routers)"
  proof (cases rule: load_routes_cases [of directory auto_tags verbose import_module t w app])
    case (traversal ew)
    with l have "collect directory auto_tags verbose import_module t
        (log (LoadingRoutes directory) verbose w) = Inl (IncludeRouterError refused pfx, w')"
      by simp
    then show ?thesis
      using collect_error by blast
  next
    case (registration w1 rs ew)
    obtain before where b: "trace w1 = trace w @ before" "registrations before = []"
      using collect_before [OF registration(1)] by blast
    have ew: "ew = (IncludeRouterError refused pfx, w')"
      using l registration(3) by simp
    from registration_loop [of app verbose rs w1] registration(2) ew
    obtain after where "trace w' = trace w1 @ after"
      "list_all (\<lambda>e. \<not> is_ImportModule e) after"
      "prefix (registrations after)
         (map (\<lambda>(route_path, router). (router, route_path, tags w1 router)) rs)"
      by auto
    with registration(1) b show ?thesis by blast
  next
    case (completed w1 rs w2)
    with l show ?thesis by simp
  qed
qed

lemma broken_run_raises:
  "\<exists>e w'. collect api_dir True False broken_importer broken_tree
       (log (LoadingRoutes api_dir) False fresh_world) = Inl (e, w')"
  by (simp add: run_eval path_eval string_eval example_eval)

lemma docstring_run_completes:
  "\<exists>w'. load_routes mock_app api_dir True False one_router docstring_tree fresh_world = Inr w'"
  by (simp add: run_eval path_eval string_eval example_eval)

lemma docstring_run_refused:
  "\<exists>w'. load_routes asserting_app api_dir True False one_router docstring_tree fresh_world
     = Inl (IncludeRouterError 0 ''documents/{document_id}'', w')"
  by (simp add: run_eval path_eval string_eval example_eval)

theorem no_registration_before_traversal_ends_witness:
  "isl (load_routes mock_app api_dir True False broken_importer broken_tree fresh_world)
   \<and> error_of (load_routes mock_app api_dir True False broken_importer broken_tree fresh_world)
       = Some (ModuleLoadError ''api.users.broken'')
   \<and> registrations (trace (world_of
         (load_routes mock_app api_dir True False broken_importer broken_tree fresh_world))) =
       registrations (trace fresh_world)
   \<and> (\<exists>w1 routers before after.
         collect api_dir True False one_router docstring_tree
           (log (LoadingRoutes api_dir) False fresh_world) = Inr (w1, routers)
         \<and> trace w1 = trace fresh_world @ before \<and> registrations before = []
         \<and> trace (world_of (load_routes mock_app api_dir True False one_router docstring_tree
               fresh_world)) = trace w1 @ after
         \<and> list_all (\<lambda>e. \<not> is_ImportModule e) after
         \<and> registrations after =
             map (\<lambda>(route_path, router). (router, route_path, tags w1 router)) routers)
   \<and> (\<exists>w1 routers before after.
         collect api_dir True False one_router docstring_tree
           (log (LoadingRoutes api_dir) False fresh_world) = Inr (w1, routers)
         \<and> trace w1 = trace fresh_world @ before \<and> registrations before = []
         \<and> trace (world_of (load_routes asserting_app api_dir True False one_router
               docstring_tree fresh_world)) = trace w1 @ after
         \<and> list_all (\<lambda>e. \<not> is_ImportModule e) after
         \<and> prefix (registrations after)
             (map (\<lambda>(route_path, router). (router, route_path, tags w1 router)) routers))"
proof -
  obtain e w' where c: "collect api_dir True False broken_importer broken_tree
      (log (LoadingRoutes api_dir) False fresh_world) = Inl (e, w')"
    using broken_run_raises by blast
  have e: "error_of (load_routes mock_app api_dir True False broken_importer broken_tree
      fresh_world) = Some (ModuleLoadError ''api.users.broken'')"
    by (simp add: run_eval path_eval string_eval example_eval)
  have l: "load_routes mock_app api_dir True False broken_importer broken_tree fresh_world
      = Inl (e, w')"
    and r0: "registrations (trace w') = registrations (trace fresh_world)"
    using no_registration_before_traversal_ends [of api_dir True False broken_importer
        broken_tree fresh_world e w' mock_app] c
    by blast+
  have "e = ModuleLoadError ''api.users.broken''"
    using e by (simp add: l)
  then have r1: "registrations (trace w') = registrations (trace fresh_world)"
    using no_registration_before_traversal_ends [of api_dir True False broken_importer
        broken_tree fresh_world e w' mock_app "''api.users.broken''"] l
    by blast
  have acc: "\<forall>router pfx ts. mock_app router pfx ts"
    by (simp add: mock_app_def)
  have r2: "registrations (trace w') = registrations (trace fresh_world)"
    using no_registration_before_traversal_ends [of api_dir True False broken_importer
        broken_tree fresh_world e w' mock_app] l acc
    by blast
  obtain w2 where r: "load_routes mock_app api_dir True False one_router docstring_tree
      fresh_world = Inr w2"
    using docstring_run_completes by blast
  have b: "\<exists>w1 routers before after.
         collect api_dir True False one_router docstring_tree
           (log (LoadingRoutes api_dir) False fresh_world) = Inr (w1, routers)
         \<and> trace w1 = trace fresh_world @ before \<and> registrations before = []
         \<and> trace w2 = trace w1 @ after
         \<and> list_all (\<lambda>e. \<not> is_ImportModule e) after
         \<and> registrations after =
             map (\<lambda>(route_path, router). (router, route_path, tags w1 router)) routers"
    using no_registration_before_traversal_ends [of api_dir True False one_router
        docstring_tree fresh_world e w2 mock_app] r
    by blast
  obtain w3 where f: "load_routes asserting_app api_dir True False one_router docstring_tree
      fresh_world = Inl (IncludeRouterError 0 ''documents/{document_id}'', w3)"
    using docstring_run_refused by blast
  have d: "\<exists>w1 routers before after.
         collect api_dir True False one_router docstring_tree
           (log (LoadingRoutes api_dir) False fresh_world) = Inr (w1, routers)
         \<and> trace w1 = trace fresh_world @ before \<and> registrations before = []
         \<and> trace w3 = trace w1 @ after
         \<and> list_all (\<lambda>e. \<not> is_ImportModule e) after
         \<and> prefix (registrations after)
             (map (\<lambda>(route_path, router). (router, route_path, tags w1 router)) routers)"
    using no_registration_before_traversal_ends [of api_dir True False one_router
        docstring_tree fresh_world e w3 asserting_app _ 0 "''documents/{document_id}''"] f
    by blast
  show ?thesis
    unfolding l r f world_of.simps using e r2 b d by (simp add: l)
qed

section \<open>Replacing the name of the root directory\<close>

lemma replace_scan_absent:
  "\<not> sublist old s \<Longrightarrow> replace_scan old new s = s"
  by (induction s) (auto simp: sublist_Cons_right)

lemma replace_absent: "\<not> contains s old \<Longrightarrow> replace s old new = s"
  by (auto simp: replace_def contains_def replace_scan_absent)

lemma join_Cons_head: "join sep ((c # g) # gs) = c # join sep (g # gs)"
  by (cases gs) simp_all

lemma join_Nil_head: "gs \<noteq> [] \<Longrightarrow> join sep ([] # gs) = sep @ join sep gs"
  by (cases gs) simp_all

lemma not_sublist_butlast: "old \<noteq> [] \<Longrightarrow> \<not> sublist old (butlast old)"
proof
  assume "old \<noteq> []" and "sublist old (butlast old)"
  then obtain ps ss where "butlast old = ps @ old @ ss"
    by (auto simp: sublist_def)
  then have "length (butlast old) = length (ps @ old @ ss)"
    by simp
  then have "length old \<le> length (butlast old)"
    by simp
  with \<open>old \<noteq> []\<close> show False by (cases old rule: rev_cases) simp_all
qed

lemma prefix_butlast_extend:
  "prefix old (a @ butlast old) \<Longrightarrow> prefix old (a @ old @ r)"
proof -
  assume p: "prefix old (a @ butlast old)"
  have "prefix (butlast old) old"
    by (simp add: prefixeq_butlast)
  then have "prefix (a @ butlast old) (a @ old @ r)"
    by (metis prefix_prefix same_prefix_prefix)
  with p show ?thesis
    using prefix_order.trans by blast
qed

lemma replace_scan_gaps:
  assumes "old \<noteq> []"
  shows "\<exists>gaps. gaps \<noteq> [] \<and> s = join old gaps \<and> replace_scan old [] s = concat gaps
     \<and> (\<forall>g \<in> set (butlast gaps). \<not> sublist old (g @ butlast old))
     \<and> \<not> sublist old (last gaps)"
proof (induction s rule: length_induct)
  case (1 s)
  show ?case
  proof (cases s)
    case Nil
    have "[[]] \<noteq> [] \<and> s = join old [[]] \<and> replace_scan old [] s = concat [[]]
      \<and> (\<forall>g \<in> set (butlast [[]::string]). \<not> sublist old (g @ butlast old))
      \<and> \<not> sublist old (last [[]])"
      using Nil assms by simp
    then show ?thesis by blast
  next
    case (Cons c cs)
    show ?thesis
    proof (cases "prefix old (c # cs)")
      case True
      define rest where "rest = drop (length old) (c # cs)"
      have s_eq: "s = old @ rest"
        using True Cons by (auto simp: rest_def prefix_def)
      have "length rest < length s"
        using s_eq assms by simp
      then obtain gaps where g: "gaps \<noteq> []" "rest = join old gaps"
        "replace_scan old [] rest = concat gaps"
        "\<forall>g \<in> set (butlast gaps). \<not> sublist old (g @ butlast old)"
        "\<not> sublist old (last gaps)"
        using 1 by blast
      have r: "replace_scan old [] s = replace_scan old [] rest"
        using True Cons assms by (simp add: rest_def)
      have "[] # gaps \<noteq> [] \<and> s = join old ([] # gaps)
        \<and> replace_scan old [] s = concat ([] # gaps)
        \<and> (\<forall>g \<in> set (butlast ([] # gaps)). \<not> sublist old (g @ butlast old))
        \<and> \<not> sublist old (last ([] # gaps))"
        using g r s_eq assms by (simp add: join_Nil_head not_sublist_butlast)
      then show ?thesis by blast
    next
      case False
      have "length cs < length s" using Cons by simp
      then obtain gaps where g: "gaps \<noteq> []" "cs = join old gaps"
        "replace_scan old [] cs = concat gaps"
        "\<forall>g \<in> set (butlast gaps). \<not> sublist old (g @ butlast old)"
        "\<not> sublist old (last gaps)"
        using 1 by blast
      obtain g0 gs where gaps: "gaps = g0 # gs"
        using g(1) by (cases gaps) auto
      have r: "replace_scan old [] s = c # replace_scan old [] cs"
        using False Cons by simp
      have head: "gs \<noteq> [] \<Longrightarrow> \<not> sublist old ((c # g0) @ butlast old)"
      proof
        assume ne: "gs \<noteq> []" and sub: "sublist old ((c # g0) @ butlast old)"
        from ne have "g0 \<in> set (butlast gaps)" by (simp add: gaps)
        with g(4) have "\<not> sublist old (g0 @ butlast old)" by blast
        with sub have "prefix old ((c # g0) @ butlast old)"
          by (simp add: sublist_Cons_right)
        then have "prefix old ((c # g0) @ old @ join old gs)"
          by (rule prefix_butlast_extend)
        moreover have "c # cs = (c # g0) @ old @ join old gs"
          using g(2) gaps ne by (cases gs) simp_all
        ultimately show False using False by simp
      qed
      have lastc: "gs = [] \<Longrightarrow> \<not> sublist old (c # g0)"
      proof
        assume e: "gs = []" and sub: "sublist old (c # g0)"
        have "cs = g0" using g(2) gaps e by simp
        moreover have "\<not> sublist old g0" using g(5) gaps e by simp
        ultimately show False using sub False by (simp add: sublist_Cons_right)
      qed
      have "(c # g0) # gs \<noteq> [] \<and> s = join old ((c # g0) # gs)
        \<and> replace_scan old [] s = concat ((c # g0) # gs)
        \<and> (\<forall>g \<in> set (butlast ((c # g0) # gs)). \<not> sublist old (g @ butlast old))
        \<and> \<not> sublist old (last ((c # g0) # gs))"
        using g r gaps Cons head lastc by (auto simp: join_Cons_head)
      then show ?thesis by blast
    qed
  qed
qed

lemma strip_one_occurrence_iff:
  "r \<in> set (strip_one_occurrence s nm) \<longleftrightarrow> (\<exists>pre post. s = pre @ nm @ post \<and> r = pre @ post)"
proof
  assume "r \<in> set (strip_one_occurrence s nm)"
  then have "r \<in> (\<lambda>i. take i s @ drop (i + length nm) s) `
      {i \<in> set [0..<Suc (length s)]. take (length nm) (drop i s) = nm}"
    by (simp only: strip_one_occurrence_def set_map set_filter)
  then obtain i where "i \<in> set [0..<Suc (length s)]" and i2: "take (length nm) (drop i s) = nm"
    and i3: "r = take i s @ drop (i + length nm) s"
    by blast
  then have "i \<le> length s"
    by (simp del: upt_Suc)
  note i = this i2 i3
  have "drop i s = take (length nm) (drop i s) @ drop (length nm) (drop i s)"
    by (simp only: append_take_drop_id)
  also have "take (length nm) (drop i s) = nm"
    by (rule i(2))
  also have "drop (length nm) (drop i s) = drop (i + length nm) s"
    by (simp add: add.commute)
  finally have "drop i s = nm @ drop (i + length nm) s" .
  then have "s = take i s @ nm @ drop (i + length nm) s"
    by (metis append_take_drop_id)
  with i(3) show "\<exists>pre post. s = pre @ nm @ post \<and> r = pre @ post"
    by blast
next
  assume "\<exists>pre post. s = pre @ nm @ post \<and> r = pre @ post"
  then obtain pre post where p: "s = pre @ nm @ post" "r = pre @ post"
    by blast
  have "length pre \<in> set [0..<Suc (length s)]"
    using p(1) by (simp del: upt_Suc)
  moreover have "take (length nm) (drop (length pre) s) = nm"
    using p(1) by simp
  ultimately
  have "length pre \<in> set (filter (\<lambda>i. take (length nm) (drop i s) = nm) [0..<Suc (length s)])"
    by (simp only: set_filter) blast
  moreover have "take (length pre) s @ drop (length pre + length nm) s = r"
    using p by simp
  ultimately show "r \<in> set (strip_one_occurrence s nm)"
    unfolding strip_one_occurrence_def by (metis (mono_tags, lifting) image_eqI set_map)
qed

text \<open>
  C2 (as amended). The directory part of the route path is the joined and converted
  directory string with every occurrence of the name of the root directory taken out,
  however many there are: the string is a sequence of gaps separated by the name, the
  result is the gaps put together, and the scan takes the occurrences from the left, so
  that the name starts nowhere inside a gap. All other characters are kept, in order.
  With an empty name (the directory \<^verbatim>\<open>.\<close>) nothing is taken out.
\<close>

theorem strips_every_occurrence:
  "(name directory = [] \<longrightarrow>
      directory_route_path directory root file = joined_directories root file)
   \<and> (name directory \<noteq> [] \<longrightarrow>
      (\<exists>gaps. gaps \<noteq> []
         \<and> joined_directories root file = join (name directory) gaps
         \<and> directory_route_path directory root file = concat gaps
         \<and> (\<forall>g \<in> set (butlast gaps). \<not> contains (g @ butlast (name directory)) (name directory))
         \<and> \<not> contains (last gaps) (name directory)))"
proof (intro conjI impI)
  assume "name directory = []"
  then show "directory_route_path directory root file = joined_directories root file"
    by (simp add: directory_route_path_def replace_def)
next
  assume ne: "name directory \<noteq> []"
  then have "directory_route_path directory root file =
      replace_scan (name directory) [] (joined_directories root file)"
    by (simp add: directory_route_path_def replace_def)
  then show "\<exists>gaps. gaps \<noteq> []
         \<and> joined_directories root file = join (name directory) gaps
         \<and> directory_route_path directory root file = concat gaps
         \<and> (\<forall>g \<in> set (butlast gaps). \<not> contains (g @ butlast (name directory)) (name directory))
         \<and> \<not> contains (last gaps) (name directory)"
    using replace_scan_gaps [OF ne, of "joined_directories root file"]
    by (simp add: contains_def)
qed

theorem strips_every_occurrence_witness:
  "name api_dir \<noteq> []
   \<and> (\<exists>gaps. gaps \<noteq> []
         \<and> joined_directories api_docs_dir ''route.py'' = join (name api_dir) gaps
         \<and> directory_route_path api_dir api_docs_dir ''route.py'' = concat gaps
         \<and> (\<forall>g \<in> set (butlast gaps). \<not> contains (g @ butlast (name api_dir)) (name api_dir))
         \<and> \<not> contains (last gaps) (name api_dir))
   \<and> name \<lparr>anchored = False, parts = []\<rparr> = []
   \<and> directory_route_path \<lparr>anchored = False, parts = []\<rparr> \<lparr>anchored = False, parts = [''users'']\<rparr>
        ''route.py'' = joined_directories \<lparr>anchored = False, parts = [''users'']\<rparr> ''route.py''"
proof -
  have ne: "name api_dir \<noteq> []"
    by (simp add: name_def api_dir_def)
  have e: "name \<lparr>anchored = False, parts = []\<rparr> = []"
    by (simp add: name_def)
  show ?thesis
    using strips_every_occurrence [of api_dir api_docs_dir "''route.py''"]
      strips_every_occurrence [of "\<lparr>anchored = False, parts = []\<rparr>"
        "\<lparr>anchored = False, parts = [''users'']\<rparr>" "''route.py''"]
      ne e
    by simp
qed

text \<open>
  C2 as stated fails: in \<^verbatim>\<open>api_v1/api_docs\<close> below the directory \<^verbatim>\<open>api\<close> two
  occurrences of the name are taken out, and the result is none of the strings that
  taking out exactly one occurrence gives.
\<close>

theorem strips_one_occurrence_counterexample:
  "joined_directories api_docs_dir ''route.py'' = ''api_v1/api_docs''
   \<and> directory_route_path api_dir api_docs_dir ''route.py'' = ''_v1/_docs''
   \<and> strip_one_occurrence ''api_v1/api_docs'' ''api'' = [''_v1/api_docs'', ''api_v1/_docs'']
   \<and> ''_v1/_docs'' \<notin> set (strip_one_occurrence ''api_v1/api_docs'' ''api'')"
proof -
  have a: "joined_directories api_docs_dir ''route.py'' = ''api_v1/api_docs''"
    by (simp add: path_eval string_eval example_eval)
  have b: "directory_route_path api_dir api_docs_dir ''route.py'' = ''_v1/_docs''"
    by (simp add: path_eval string_eval example_eval)
  have c: "strip_one_occurrence ''api_v1/api_docs'' ''api'' = [''_v1/api_docs'', ''api_v1/_docs'']"
    by code_simp
  show ?thesis
    using a b c by simp
qed

section \<open>Tags and skipped files\<close>

text \<open>
  C3 (as amended). For a file that passes the skip rules and whose module has a router:
  with \<^verbatim>\<open>auto_tags\<close> the router's tag list gets one more tag at its end, the route
  path of the entry with every occurrence of the root directory's name taken out once
  more, which is the route path itself when the name does not occur in it; without
  \<^verbatim>\<open>auto_tags\<close> every tag list stays as it is.
\<close>

theorem tag_appended:
  assumes "passes_skip_rules file"
    and "import_module (import_name root file) = Module (Some router)"
  shows "\<exists>w'. visit_file directory auto_tags verbose import_module root file (w, routers) =
       Inr (w', routers @ [(route_path_of directory root file, router)])
     \<and> tags w' =
         (if auto_tags
          then (tags w)(router := tags w router
                  @ [replace (route_path_of directory root file) (name directory) []])
          else tags w)
     \<and> (\<not> contains (route_path_of directory root file) (name directory) \<longrightarrow>
          replace (route_path_of directory root file) (name directory) []
            = route_path_of directory root file)"
  using visit_file_loaded [where import_module = import_module, OF assms]
  by (simp add: add_tag_def emit_def replace_absent)

lemma passes_apikeys_py: "passes_skip_rules ''apikeys.py''"
  by (simp add: passes_skip_rules_def string_eval)

theorem tag_appended_witness:
  "(\<exists>w'. visit_file api_dir True False one_router users_dir ''apikeys.py'' (fresh_world, []) =
       Inr (w', [(''users/apikeys'', 0)])
     \<and> tags w' = (tags fresh_world)(0 := tags fresh_world 0 @ [''users/keys'']))
   \<and> (\<exists>w'. visit_file api_dir False False one_router users_dir ''apikeys.py'' (fresh_world, []) =
       Inr (w', [(''users/apikeys'', 0)])
     \<and> tags w' = tags fresh_world)
   \<and> (\<exists>w'. visit_file api_dir True False one_router users_dir ''route.py'' (fresh_world, []) =
       Inr (w', [(''users'', 0)])
     \<and> tags w' = (tags fresh_world)(0 := tags fresh_world 0 @ [''users'']))"
proof -
  have imp: "one_router (import_name users_dir f) = Module (Some 0)" for f
    by (simp add: one_router_def)
  have p1: "route_path_of api_dir users_dir ''apikeys.py'' = ''users/apikeys''"
    by (simp add: path_eval string_eval example_eval)
  have p2: "route_path_of api_dir users_dir ''route.py'' = ''users''"
    by (simp add: path_eval string_eval example_eval)
  have n: "name api_dir = ''api''"
    by (simp add: name_def api_dir_def)
  have r1: "replace ''users/apikeys'' ''api'' [] = ''users/keys''"
    by (simp add: string_eval)
  have r2: "replace ''users'' ''api'' [] = ''users''"
    by (simp add: string_eval)
  show ?thesis
    using
      tag_appended [where import_module = one_router and directory = api_dir and root = users_dir
        and auto_tags = True and verbose = False and w = fresh_world and routers = "[]",
        OF passes_apikeys_py imp]
      tag_appended [where import_module = one_router and directory = api_dir and root = users_dir
        and auto_tags = False and verbose = False and w = fresh_world and routers = "[]",
        OF passes_apikeys_py imp]
      tag_appended [where import_module = one_router and directory = api_dir and root = users_dir
        and auto_tags = True and verbose = False and w = fresh_world and routers = "[]",
        OF passes_route_py imp]
    by (simp add: p1 p2 n r1 r2) blast
qed

text \<open>
  C3 as stated fails: below \<^verbatim>\<open>api\<close> the file \<^verbatim>\<open>users/apikeys.py\<close> has the route
  path \<^verbatim>\<open>users/apikeys\<close> and gets the tag \<^verbatim>\<open>users/keys\<close>; below
  \<^verbatim>\<open>app/api\<close>, on an app that asserts the leading slash, it is registered with the
  prefix \<^verbatim>\<open>/users/apikeys\<close> and the tag \<^verbatim>\<open>/users/keys\<close>.
\<close>

theorem tag_equals_path_counterexample:
  "routers_of (collect api_dir True False one_router (lone_file [''users''] ''apikeys.py'')
       (log (LoadingRoutes api_dir) False fresh_world)) = [(''users/apikeys'', 0)]
   \<and> tags (world_of (load_routes mock_app api_dir True False one_router
         (lone_file [''users''] ''apikeys.py'') fresh_world)) 0 = [''users/keys'']
   \<and> registrations (trace (world_of (load_routes mock_app api_dir True False one_router
         (lone_file [''users''] ''apikeys.py'') fresh_world)))
       = [(0, ''users/apikeys'', [''users/keys''])]
   \<and> registrations (trace (world_of (load_routes asserting_app app_api_dir True False
         one_router (lone_file [''users''] ''apikeys.py'') fresh_world)))
       = [(0, ''/users/apikeys'', [''/users/keys''])]"
  by (simp add: run_eval path_eval string_eval example_eval)

text \<open>
  C8 (as amended). A file name that does not start with two underscores, has the suffix
  \<^verbatim>\<open>.py\<close> and a stem that contains \<^verbatim>\<open>route\<close> without being \<^verbatim>\<open>route\<close>: the loop
  body completes, \<^verbatim>\<open>routers\<close> and all tag lists are unchanged, and the only effect is
  one log message, at level INFO when \<^verbatim>\<open>verbose\<close> is set and at level DEBUG
  otherwise. No module is imported.
\<close>

theorem misspelled_route_skipped:
  assumes "\<not> startswith file ''__''" and "suffix_of file = ''.py''"
    and "contains (stem file) ''route''" and "stem file \<noteq> ''route''"
  shows "visit_file directory auto_tags verbose import_module root file (w, routers) =
     Inr (w\<lparr>trace := trace w
            @ [Log (if verbose then INFO else DEBUG) (SkippingMisspelled (stem file) root)]\<rparr>,
          routers)"
  using assms by (simp add: visit_file_def log_def emit_def)

theorem misspelled_route_skipped_witness:
  "visit_file api_dir True True one_router users_dir ''router.py'' (fresh_world, []) =
     Inr (fresh_world\<lparr>trace := trace fresh_world
            @ [Log INFO (SkippingMisspelled ''router'' users_dir)]\<rparr>, [])
   \<and> visit_file api_dir True False one_router users_dir ''router.py'' (fresh_world, []) =
     Inr (fresh_world\<lparr>trace := trace fresh_world
            @ [Log DEBUG (SkippingMisspelled ''router'' users_dir)]\<rparr>, [])"
proof -
  have a: "\<not> startswith ''router.py'' ''__''" and b: "suffix_of ''router.py'' = ''.py''"
    and c: "contains (stem ''router.py'') ''route''" and d: "stem ''router.py'' \<noteq> ''route''"
    by (simp_all add: string_eval)
  have s: "stem ''router.py'' = ''router''"
    by (simp add: string_eval)
  show ?thesis
    using misspelled_route_skipped [OF a b c d, of api_dir True True one_router users_dir fresh_world "[]"]
      misspelled_route_skipped [OF a b c d, of api_dir True False one_router users_dir fresh_world "[]"]
    by (simp add: s)
qed

text \<open>
  C8 as stated fails: the message for \<^verbatim>\<open>users/router.py\<close> is logged at level INFO
  or DEBUG, never WARNING; and \<^verbatim>\<open>users/router.txt\<close>, whose stem contains
  \<^verbatim>\<open>route\<close> as well, is skipped with no message at all.
\<close>

theorem warning_level_counterexample:
  "trace (world_of (load_routes mock_app api_dir True True one_router
       (lone_file [''users''] ''router.py'') fresh_world))
     = [Log INFO (LoadingRoutes api_dir),
        Log INFO (SkippingMisspelled ''router'' users_dir),
        Log INFO RoutesLoaded]
   \<and> trace (world_of (load_routes mock_app api_dir True False one_router
       (lone_file [''users''] ''router.py'') fresh_world))
     = [Log DEBUG (LoadingRoutes api_dir),
        Log DEBUG (SkippingMisspelled ''router'' users_dir),
        Log DEBUG RoutesLoaded]
   \<and> trace (world_of (load_routes mock_app api_dir True True one_router
       (lone_file [''users''] ''router.txt'') fresh_world))
     = [Log INFO (LoadingRoutes api_dir), Log INFO RoutesLoaded]"
  by (simp add: run_eval path_eval string_eval example_eval)

section \<open>Directories whose name starts with two underscores\<close>

lemma for_each_map:
  "for_each body (map f xs) s = for_each (\<lambda>x. body (f x)) xs s"
  by (induction xs arbitrary: s) (auto split: sum.splits)

lemma visit_dir_without_dunder_files:
  "visit_dir d a v imp (root, ds', if startswith (name root) ''__'' then [] else fs) s =
     visit_dir d a v imp (root, ds, fs) s"
  by (simp add: visit_dir_def)

lemma for_each_walk_without_dunder_files:
  "for_each (visit_dir d a v imp) (walk p (without_dunder_files p t)) s =
     for_each (visit_dir d a v imp) (walk p t) s"
proof (induction p t arbitrary: s rule: walk.induct)
  case (1 dirpath fs ds)
  let ?B = "visit_dir d a v imp"
  have sub: "for_each ?B
        (concat (map (\<lambda>x. walk (truediv dirpath (fst x)) (snd x))
           (map (\<lambda>x. (fst x, without_dunder_files (truediv dirpath (fst x)) (snd x))) ds))) s' =
      for_each ?B (concat (map (\<lambda>x. walk (truediv dirpath (fst x)) (snd x)) ds)) s'" for s'
  proof -
    have "for_each ?B
        (concat (map (\<lambda>x. walk (truediv dirpath (fst x)) (snd x))
           (map (\<lambda>x. (fst x, without_dunder_files (truediv dirpath (fst x)) (snd x))) ds))) s' =
      for_each (\<lambda>x. for_each ?B
          (walk (truediv dirpath (fst x)) (without_dunder_files (truediv dirpath (fst x)) (snd x))))
        ds s'"
      by (simp add: for_each_concat for_each_map)
    also have "\<dots> = for_each (\<lambda>x. for_each ?B (walk (truediv dirpath (fst x)) (snd x))) ds s'"
      by (rule for_each_cong) (rule "1.IH")
    also have "\<dots> = for_each ?B (concat (map (\<lambda>x. walk (truediv dirpath (fst x)) (snd x)) ds)) s'"
      by (simp add: for_each_concat for_each_map)
    finally show ?thesis .
  qed
  let ?ds' = "map (\<lambda>x. (fst x, without_dunder_files (truediv dirpath (fst x)) (snd x))) ds"
  let ?fs' = "if startswith (name dirpath) ''__'' then [] else fs"
  have "for_each ?B (walk dirpath (without_dunder_files dirpath (Dir fs ds))) s =
      (case ?B (dirpath, map fst ?ds', ?fs') s of
         Inl e \<Rightarrow> Inl e
       | Inr s' \<Rightarrow> for_each ?B
           (concat (map (\<lambda>x. walk (truediv dirpath (fst x)) (snd x)) ?ds')) s')"
    by (simp only: without_dunder_files.simps walk.simps for_each.simps)
  also have "\<dots> =
      (case ?B (dirpath, map fst ds, fs) s of
         Inl e \<Rightarrow> Inl e
       | Inr s' \<Rightarrow> for_each ?B
           (concat (map (\<lambda>x. walk (truediv dirpath (fst x)) (snd x)) ds)) s')"
    by (simp only: visit_dir_without_dunder_files [where ds = "map fst ds"] sub)
  also have "\<dots> = for_each ?B (walk dirpath (Dir fs ds)) s"
    by (simp only: walk.simps for_each.simps)
  finally show ?case .
qed

text \<open>
  C7 (as amended). The files that lie directly in a directory whose name starts with two
  underscores contribute nothing: a run on the tree is the run on the tree without these
  files, with the same outcome, the same effects and the same tag lists. (The files of
  the subdirectories of such a directory are visited like any others.)
\<close>

theorem dunder_directory_files_contribute_nothing:
  "load_routes app directory auto_tags verbose import_module (without_dunder_files directory t) w =
     load_routes app directory auto_tags verbose import_module t w"
  by (simp add: load_routes_def collect_def traverse_def for_each_walk_without_dunder_files)

theorem dunder_directory_files_contribute_nothing_witness:
  "without_dunder_files api_dir pycache_tree =
     Dir [''__init__.py''] [(''__pycache__'', Dir [] []), (''users'', Dir [''route.py''] [])]
   \<and> load_routes mock_app api_dir True False one_router (without_dunder_files api_dir pycache_tree)
       fresh_world
     = load_routes mock_app api_dir True False one_router pycache_tree fresh_world
   \<and> routers_of (collect api_dir True False one_router pycache_tree fresh_world)
     = [(''users'', 0)]"
proof -
  have a: "without_dunder_files api_dir pycache_tree =
     Dir [''__init__.py''] [(''__pycache__'', Dir [] []), (''users'', Dir [''route.py''] [])]"
    by (simp add: path_eval string_eval example_eval)
  have b: "routers_of (collect api_dir True False one_router pycache_tree fresh_world)
     = [(''users'', 0)]"
    by (simp add: run_eval path_eval string_eval example_eval)
  show ?thesis
    using dunder_directory_files_contribute_nothing [of mock_app api_dir True False one_router
        pycache_tree fresh_world] a b
    by simp
qed

text \<open>
  C7 as stated fails: the file \<^verbatim>\<open>__private/sub/route.py\<close> lies inside the directory
  \<^verbatim>\<open>__private\<close> and is collected and registered; only a file directly in
  \<^verbatim>\<open>__private\<close> is not.
\<close>

theorem dunder_subtree_counterexample:
  "routers_of (collect api_dir True False one_router
       (lone_file [''__private'', ''sub''] ''route.py'') fresh_world) = [(''__private/sub'', 0)]
   \<and> registrations (trace (world_of (load_routes mock_app api_dir True False one_router
         (lone_file [''__private'', ''sub''] ''route.py'') fresh_world)))
       = [(0, ''__private/sub'', [''__private/sub''])]
   \<and> routers_of (collect api_dir True False one_router
       (lone_file [''__private''] ''route.py'') fresh_world) = []
   \<and> registrations (trace (world_of (load_routes asserting_app app_api_dir True False
         one_router (lone_file [''__private'', ''sub''] ''route.py'') fresh_world)))
       = [(0, ''/__private/sub'', [''/__private/sub''])]"
  by (simp add: run_eval path_eval string_eval example_eval)

section \<open>What a traversal collects does not depend on the world\<close>

lemma contributesD_None:
  assumes "contributes body c" and "c x = None"
  shows "isl (body x (w, rs))"
proof -
  have "case c x of
      None \<Rightarrow> isl (body x (w, rs))
    | Some new \<Rightarrow> (\<exists>w'. body x (w, rs) = Inr (w', rs @ new))"
    using assms(1) unfolding contributes_def by blast
  then show ?thesis by (simp add: assms(2))
qed

lemma contributesD_Some:
  assumes "contributes body c" and "c x = Some new"
  shows "\<exists>w'. body x (w, rs) = Inr (w', rs @ new)"
proof -
  have "case c x of
      None \<Rightarrow> isl (body x (w, rs))
    | Some new \<Rightarrow> (\<exists>w'. body x (w, rs) = Inr (w', rs @ new))"
    using assms(1) unfolding contributes_def by blast
  then show ?thesis by (simp add: assms(2))
qed

lemma for_each_raises:
  assumes "contributes body c" and "x \<in> set xs" and "c x = None"
  shows "isl (for_each body xs (w, rs))"
  using assms(2)
proof (induction xs arbitrary: w rs)
  case Nil
  then show ?case by simp
next
  case (Cons y ys)
  show ?case
  proof (cases "body y (w, rs)")
    case (Inl e)
    then show ?thesis by simp
  next
    case (Inr s')
    obtain w' rs' where s': "s' = (w', rs')" by (cases s')
    have "y \<noteq> x"
      using Inr contributesD_None [OF assms(1,3), of w rs] by auto
    with Cons.prems have "x \<in> set ys" by simp
    then have "isl (for_each body ys (w', rs'))" by (rule Cons.IH)
    with Inr s' show ?thesis by simp
  qed
qed

lemma for_each_completes:
  assumes "contributes body c" and "\<forall>x \<in> set xs. c x \<noteq> None"
  shows "\<exists>w'. for_each body xs (w, rs) = Inr (w', rs @ concat (map (\<lambda>x. the (c x)) xs))"
  using assms(2)
proof (induction xs arbitrary: w rs)
  case Nil
  show ?case by simp
next
  case (Cons y ys)
  from Cons.prems obtain new where new: "c y = Some new" by auto
  then obtain w1 where b: "body y (w, rs) = Inr (w1, rs @ new)"
    using contributesD_Some [OF assms(1)] by blast
  from Cons.prems have "\<forall>x \<in> set ys. c x \<noteq> None" by simp
  then obtain w' where
    "for_each body ys (w1, rs @ new) = Inr (w', (rs @ new) @ concat (map (\<lambda>x. the (c x)) ys))"
    using Cons.IH by blast
  with b new show ?case by simp
qed

lemma for_each_contributes:
  assumes "contributes body c"
  shows "contributes (\<lambda>xs. for_each body xs)
     (\<lambda>xs. if \<forall>x \<in> set xs. c x \<noteq> None then Some (concat (map (\<lambda>x. the (c x)) xs)) else None)"
  unfolding contributes_def
proof (intro allI)
  fix xs w rs
  show "case (if \<forall>x \<in> set xs. c x \<noteq> None then Some (concat (map (\<lambda>x. the (c x)) xs)) else None) of
      None \<Rightarrow> isl (for_each body xs (w, rs))
    | Some new \<Rightarrow> \<exists>w'. for_each body xs (w, rs) = Inr (w', rs @ new)"
  proof (cases "\<forall>x \<in> set xs. c x \<noteq> None")
    case True
    have "\<exists>w'. for_each body xs (w, rs) = Inr (w', rs @ concat (map (\<lambda>x. the (c x)) xs))"
      using for_each_completes [OF assms True] .
    then show ?thesis
      by (simp only: if_P [OF True] option.case)
  next
    case False
    then obtain x where x: "x \<in> set xs" "c x = None" by blast
    have "isl (for_each body xs (w, rs))"
      using for_each_raises [OF assms x] .
    then show ?thesis
      by (simp only: if_not_P [OF False] option.case)
  qed
qed

lemma visit_file_contributes:
  "contributes (visit_file d a v imp root)
     (\<lambda>file. if startswith file ''__'' \<or> suffix_of file \<noteq> ''.py'' then Some []
        else if contains (stem file) ''route'' \<and> stem file \<noteq> ''route'' then Some []
        else case imp (import_name root file) of
               ImportRaises \<Rightarrow> None
             | Module None \<Rightarrow> Some []
             | Module (Some router) \<Rightarrow> Some [(route_path_of d root file, router)])"
  unfolding contributes_def
  by (simp add: visit_file_def Let_def split: module_result.splits option.splits)

lemma visit_dir_contributes: "\<exists>c. contributes (visit_dir d a v imp) c"
proof -
  define cfile where "cfile root = (\<lambda>file.
      if startswith file ''__'' \<or> suffix_of file \<noteq> ''.py'' then Some []
      else if contains (stem file) ''route'' \<and> stem file \<noteq> ''route'' then Some []
      else case imp (import_name root file) of
             ImportRaises \<Rightarrow> None
           | Module None \<Rightarrow> Some []
           | Module (Some router) \<Rightarrow> Some [(route_path_of d root file, router)])" for root
  define cf where "cf root = (\<lambda>xs.
      if \<forall>x \<in> set xs. cfile root x \<noteq> None
      then Some (concat (map (\<lambda>x. the (cfile root x)) xs)) else None)" for root
  have "contributes (visit_file d a v imp root) (cfile root)" for root
    unfolding cfile_def by (rule visit_file_contributes)
  then have cf: "contributes (\<lambda>fs. for_each (visit_file d a v imp root) fs) (cf root)" for root
    unfolding cf_def by (rule for_each_contributes)
  have "contributes (visit_dir d a v imp)
      (\<lambda>triple. case triple of (root, ds, fs) \<Rightarrow>
         if startswith (name root) ''__'' then Some [] else cf root fs)"
    unfolding contributes_def
  proof (intro allI)
    fix triple :: "path \<times> string list \<times> string list" and w rs
    obtain root ds fs where t: "triple = (root, ds, fs)" by (cases triple)
    show "case (case triple of (root, ds, fs) \<Rightarrow>
         if startswith (name root) ''__'' then Some [] else cf root fs) of
        None \<Rightarrow> isl (visit_dir d a v imp triple (w, rs))
      | Some new \<Rightarrow> \<exists>w'. visit_dir d a v imp triple (w, rs) = Inr (w', rs @ new)"
    proof (cases "startswith (name root) ''__''")
      case True
      with t show ?thesis by (simp add: visit_dir_def)
    next
      case False
      show ?thesis
      proof (cases "cf root fs")
        case None
        with t False show ?thesis
          using contributesD_None [OF cf None] by (simp add: visit_dir_def)
      next
        case (Some new)
        with t False show ?thesis
          using contributesD_Some [OF cf Some] by (simp add: visit_dir_def)
      qed
    qed
  qed
  then show ?thesis by blast
qed

lemma completes_in_every_state:
  assumes "contributes body c" and "for_each body xs (w, rs) = Inr (w', rs')"
  shows "(\<forall>x \<in> set xs. c x \<noteq> None) \<and> rs' = rs @ concat (map (\<lambda>x. the (c x)) xs)"
proof -
  have all: "\<forall>x \<in> set xs. c x \<noteq> None"
  proof (rule ccontr)
    assume "\<not> (\<forall>x \<in> set xs. c x \<noteq> None)"
    then obtain x where "x \<in> set xs" "c x = None" by blast
    then have "isl (for_each body xs (w, rs))"
      using for_each_raises [OF assms(1)] by blast
    with assms(2) show False by simp
  qed
  then obtain w2 where "for_each body xs (w, rs) = Inr (w2, rs @ concat (map (\<lambda>x. the (c x)) xs))"
    using for_each_completes [OF assms(1)] by blast
  with assms(2) all show ?thesis by simp
qed

lemma traverse_triples_independent:
  assumes "for_each (visit_dir d a v imp) ts (w, []) = Inr (w', rs)"
    and "mset ts' = mset ts"
  shows "\<exists>w2' rs2. for_each (visit_dir d a v imp) ts' (u, []) = Inr (w2', rs2)
     \<and> mset rs2 = mset rs \<and> (ts' = ts \<longrightarrow> rs2 = rs)"
proof -
  obtain c where c: "contributes (visit_dir d a v imp) c"
    using visit_dir_contributes by blast
  have ok: "\<forall>x \<in> set ts. c x \<noteq> None" and rs: "rs = concat (map (\<lambda>x. the (c x)) ts)"
    using completes_in_every_state [OF c assms(1)] by simp_all
  have "set ts' = set ts"
    using assms(2) by (rule mset_eq_setD)
  with ok have ok': "\<forall>x \<in> set ts'. c x \<noteq> None" by simp
  then obtain w2' where r2: "for_each (visit_dir d a v imp) ts' (u, []) =
      Inr (w2', concat (map (\<lambda>x. the (c x)) ts'))"
    using for_each_completes [OF c, of ts' u "[]"] by auto
  have "mset (concat (map (\<lambda>x. the (c x)) ts')) = mset (concat (map (\<lambda>x. the (c x)) ts))"
  proof -
    have "mset (concat (map (\<lambda>x. the (c x)) xs)) =
        \<Sum>\<^sub># (image_mset (\<lambda>x. mset (the (c x))) (mset xs))" for xs
      by (induction xs) simp_all
    then show ?thesis by (simp add: assms(2))
  qed
  then have "mset (concat (map (\<lambda>x. the (c x)) ts')) = mset rs"
    by (simp only: rs)
  moreover have "ts' = ts \<longrightarrow> concat (map (\<lambda>x. the (c x)) ts') = rs"
    by (simp add: rs)
  ultimately show ?thesis
    using r2 by blast
qed

text \<open>
  What a completed traversal has collected: the entries of the visited directories, in
  the order of the visit. It completes exactly when no visited directory raises.
\<close>

lemma visit_file_entries:
  "contributes (visit_file d a v imp root)
     (\<lambda>file. if file_raises imp root file then None else Some (file_entries d imp root file))"
  unfolding contributes_def
  by (auto simp add: visit_file_def file_raises_def file_entries_def passes_skip_rules_def Let_def
      split: module_result.splits option.splits)

lemma visit_dir_entries:
  "contributes (visit_dir d a v imp)
     (\<lambda>triple. if dir_raises imp triple then None else Some (dir_entries d imp triple))"
  unfolding contributes_def
proof (intro allI)
  fix triple :: "path \<times> string list \<times> string list" and w rs
  obtain root ds fs where t: "triple = (root, ds, fs)" by (cases triple)
  let ?c = "\<lambda>file. if file_raises imp root file then None else Some (file_entries d imp root file)"
  have files: "contributes (\<lambda>fs. for_each (visit_file d a v imp root) fs)
     (\<lambda>xs. if \<forall>x \<in> set xs. ?c x \<noteq> None then Some (concat (map (\<lambda>x. the (?c x)) xs)) else None)"
    using visit_file_entries by (rule for_each_contributes)
  show "case (if dir_raises imp triple then None else Some (dir_entries d imp triple)) of
      None \<Rightarrow> isl (visit_dir d a v imp triple (w, rs))
    | Some new \<Rightarrow> \<exists>w'. visit_dir d a v imp triple (w, rs) = Inr (w', rs @ new)"
  proof (cases "startswith (name root) ''__''")
    case True
    with t show ?thesis
      by (simp add: visit_dir_def dir_raises_def dir_entries_def)
  next
    case False
    show ?thesis
    proof (cases "\<exists>file \<in> set fs. file_raises imp root file")
      case True
      then have n: "\<not> (\<forall>x \<in> set fs. ?c x \<noteq> None)" by auto
      have "(if \<forall>x \<in> set fs. ?c x \<noteq> None
          then Some (concat (map (\<lambda>x. the (?c x)) fs)) else None) = None"
        by (simp only: if_not_P [OF n])
      then have "isl (for_each (visit_file d a v imp root) fs (w, rs))"
        by (rule contributesD_None [OF files])
      with t False True show ?thesis
        by (simp add: visit_dir_def dir_raises_def)
    next
      case no: False
      then have all: "\<forall>x \<in> set fs. ?c x \<noteq> None" by auto
      have same: "concat (map (\<lambda>x. the (?c x)) fs) = concat (map (file_entries d imp root) fs)"
        using no by (auto intro!: arg_cong [where f = concat])
      have "(if \<forall>x \<in> set fs. ?c x \<noteq> None
          then Some (concat (map (\<lambda>x. the (?c x)) fs)) else None)
          = Some (concat (map (\<lambda>x. the (?c x)) fs))"
        by (simp only: if_P [OF all])
      then have "\<exists>w'. for_each (visit_file d a v imp root) fs (w, rs) =
          Inr (w', rs @ concat (map (\<lambda>x. the (?c x)) fs))"
        by (rule contributesD_Some [OF files])
      with t False no same show ?thesis
        by (simp add: visit_dir_def dir_raises_def dir_entries_def)
    qed
  qed
qed

lemma for_each_visit_dir_completes:
  assumes "for_each (visit_dir d a v imp) ts (w, rs) = Inr (w', rs')"
  shows "(\<forall>x \<in> set ts. \<not> dir_raises imp x) \<and> rs' = rs @ concat (map (dir_entries d imp) ts)"
proof -
  let ?c = "\<lambda>triple. if dir_raises imp triple then None else Some (dir_entries d imp triple)"
  have "(\<forall>x \<in> set ts. ?c x \<noteq> None) \<and> rs' = rs @ concat (map (\<lambda>x. the (?c x)) ts)"
    using visit_dir_entries assms by (rule completes_in_every_state)
  then have ok: "\<forall>x \<in> set ts. \<not> dir_raises imp x"
    and rs': "rs' = rs @ concat (map (\<lambda>x. the (?c x)) ts)"
    by (auto split: if_splits)
  have "concat (map (\<lambda>x. the (?c x)) ts) = concat (map (dir_entries d imp) ts)"
    using ok by (auto intro!: arg_cong [where f = concat])
  with ok rs' show ?thesis by simp
qed

lemma for_each_visit_dir_total:
  assumes "\<forall>x \<in> set ts. \<not> dir_raises imp x"
  shows "\<exists>w'. for_each (visit_dir d a v imp) ts (u, rs) =
     Inr (w', rs @ concat (map (dir_entries d imp) ts))"
proof -
  let ?c = "\<lambda>triple. if dir_raises imp triple then None else Some (dir_entries d imp triple)"
  have all: "\<forall>x \<in> set ts. ?c x \<noteq> None"
    using assms by simp
  have "concat (map (\<lambda>x. the (?c x)) ts) = concat (map (dir_entries d imp) ts)"
    using assms by (auto intro!: arg_cong [where f = concat])
  then show ?thesis
    using for_each_completes [OF visit_dir_entries all, where w = u and rs = rs] by simp
qed

section \<open>Order of the collected routers\<close>

lemma collect_Inr:
  "collect d a v imp t w = Inr (w', rs) \<longleftrightarrow>
     (\<exists>rs1. traverse d a v imp t w = Inr (w', rs1) \<and> rs = sort_key fst rs1)"
  by (auto simp: collect_def split: sum.splits)

lemma collect_independent:
  assumes "collect d a v imp t w = Inr (w', rs)"
  shows "\<exists>w2'. collect d a v imp t w2 = Inr (w2', rs)"
proof -
  obtain rs1 where t1: "traverse d a v imp t w = Inr (w', rs1)" and rs: "rs = sort_key fst rs1"
    using assms by (auto simp: collect_Inr)
  have "for_each (visit_dir d a v imp) (walk d t) (w, []) = Inr (w', rs1)"
    using t1 by (simp add: traverse_def)
  then obtain w2' where "for_each (visit_dir d a v imp) (walk d t) (w2, []) = Inr (w2', rs1)"
    using traverse_triples_independent [where ts' = "walk d t" and ts = "walk d t" and u = w2]
    by blast
  then have "collect d a v imp t w2 = Inr (w2', rs)"
    by (simp add: collect_def traverse_def rs)
  then show ?thesis by blast
qed

lemma sorted_paths_unique:
  assumes "mset rs2 = mset rs1"
  shows "map fst (sort_key fst rs2) = map fst (sort_key fst (rs1 :: routers))"
proof -
  have m: "mset (map fst (sort_key fst rs)) = mset (map fst rs1)" if "mset rs = mset rs1" for rs :: routers
    using that by (metis mset_map mset_sort)
  have "sort (map fst rs1) = map fst (sort_key fst rs2)"
    by (rule properties_for_sort) (simp_all add: m assms sorted_sort_key del: mset_map)
  moreover have "sort (map fst rs1) = map fst (sort_key fst rs1)"
    by (rule properties_for_sort) (simp_all add: m sorted_sort_key del: mset_map)
  ultimately show ?thesis by simp
qed

lemma mset_concat_map:
  "mset xs = mset ys \<Longrightarrow> mset (concat (map f xs)) = mset (concat (map f ys))"
proof -
  have "mset (concat (map f zs)) = \<Sum>\<^sub># (image_mset (\<lambda>x. mset (f x)) (mset zs))" for zs
    by (induction zs) simp_all
  then show "mset xs = mset ys \<Longrightarrow> mset (concat (map f xs)) = mset (concat (map f ys))"
    by simp
qed

lemma filter_same_key_distinct:
  "distinct (map f xs) \<Longrightarrow> k \<in> set xs \<Longrightarrow> filter (\<lambda>x. f k = f x) xs = [k]"
proof (induction xs)
  case Nil
  then show ?case by simp
next
  case (Cons x xs)
  show ?case
  proof (cases "k = x")
    case True
    have "filter (\<lambda>y. f x = f y) xs = []"
      using Cons.prems(1) by (auto simp: filter_empty_conv)
    with True show ?thesis by simp
  next
    case False
    with Cons.prems have k: "k \<in> set xs" by simp
    have "f x \<notin> f ` set xs"
      using Cons.prems(1) by simp
    with k have "f k \<noteq> f x"
      by (metis imageI)
    with Cons k show ?thesis by simp
  qed
qed

lemma sort_key_distinct_unique:
  assumes "mset xs = mset ys" and "distinct (map f ys)"
  shows "sort_key f xs = sort_key f ys"
proof (rule properties_for_sort_key)
  show "mset (sort_key f ys) = mset xs"
    using assms(1) by simp
  show "sorted (map f (sort_key f ys))"
    by (rule sorted_sort_key)
  have dx: "distinct (map f xs)"
    using assms by (metis distinct_map mset_eq_imp_distinct_iff mset_map)
  have ds: "distinct (map f (sort_key f ys))"
    using assms(2) by (metis mset_eq_imp_distinct_iff mset_map mset_sort)
  fix k assume k: "k \<in> set (sort_key f ys)"
  then have "k \<in> set xs"
    using assms(1) by (metis mset_eq_setD set_sort)
  then have "filter (\<lambda>x. f k = f x) xs = [k]"
    using dx by (rule filter_same_key_distinct [rotated])
  moreover have "filter (\<lambda>x. f k = f x) (sort_key f ys) = [k]"
    using ds k by (rule filter_same_key_distinct)
  ultimately show "filter (\<lambda>x. f k = f x) (sort_key f ys) = filter (\<lambda>x. f k = f x) xs"
    by simp
qed

text \<open>
  C5 (as amended). When the collection completes, the collected pairs are the entries
  of the tree, each the route path of a file with the router of that file's module,
  sorted ascending by route path under the character-wise order of strings, entries with
  the same route path in the order of the visit. Collecting again on the same tree, from
  the world the first run left, returns the same sequence of pairs. Visiting the
  directories in any other order yields the same pairs and the same sequence of route
  paths, and the same sequence of pairs when no two entries have the same route path.
\<close>

theorem collect_sorted_and_deterministic:
  assumes "collect directory auto_tags verbose import_module t w = Inr (w', routers)"
  shows "routers = sort_key fst
        (concat (map (dir_entries directory import_module) (walk directory t)))
    \<and> sorted (map fst routers)
    \<and> (\<exists>w''. collect directory auto_tags verbose import_module t w' = Inr (w'', routers))
    \<and> (\<forall>triples. mset triples = mset (walk directory t) \<longrightarrow>
         (\<exists>w2 routers2.
            for_each (visit_dir directory auto_tags verbose import_module) triples (w, [])
              = Inr (w2, routers2)
            \<and> routers2 = concat (map (dir_entries directory import_module) triples)
            \<and> mset (sort_key fst routers2) = mset routers
            \<and> map fst (sort_key fst routers2) = map fst routers
            \<and> (distinct (map fst routers) \<longrightarrow> sort_key fst routers2 = routers)))"
proof (intro conjI allI impI)
  obtain rs1 where t1: "traverse directory auto_tags verbose import_module t w = Inr (w', rs1)"
    and rs: "routers = sort_key fst rs1"
    using assms by (auto simp: collect_Inr)
  have f1: "for_each (visit_dir directory auto_tags verbose import_module) (walk directory t)
      (w, []) = Inr (w', rs1)"
    using t1 by (simp add: traverse_def)
  have ok: "\<forall>x \<in> set (walk directory t). \<not> dir_raises import_module x"
    and rs1: "rs1 = concat (map (dir_entries directory import_module) (walk directory t))"
    using for_each_visit_dir_completes [OF f1] by simp_all
  show "routers = sort_key fst
      (concat (map (dir_entries directory import_module) (walk directory t)))"
    by (simp add: rs rs1)
  show "sorted (map fst routers)"
    by (simp add: rs sorted_sort_key)
  show "\<exists>w''. collect directory auto_tags verbose import_module t w' = Inr (w'', routers)"
    using assms by (rule collect_independent)
  fix triples :: "(path \<times> string list \<times> string list) list"
  assume p: "mset triples = mset (walk directory t)"
  let ?rs2 = "concat (map (dir_entries directory import_module) triples)"
  have "set triples = set (walk directory t)"
    using p by (rule mset_eq_setD)
  with ok have "\<forall>x \<in> set triples. \<not> dir_raises import_module x"
    by simp
  then obtain w2 where
    r2: "for_each (visit_dir directory auto_tags verbose import_module) triples (w, [])
      = Inr (w2, ?rs2)"
    using for_each_visit_dir_total [where u = w and rs = "[]"] by fastforce
  have m: "mset ?rs2 = mset rs1"
    unfolding rs1 using p by (rule mset_concat_map)
  have a: "mset (sort_key fst ?rs2) = mset routers"
    using m by (simp add: rs)
  have b: "map fst (sort_key fst ?rs2) = map fst routers"
    using sorted_paths_unique [OF m] by (simp add: rs)
  have c: "distinct (map fst routers) \<longrightarrow> sort_key fst ?rs2 = routers"
  proof
    assume "distinct (map fst routers)"
    then have "distinct (map fst rs1)"
      unfolding rs by (metis mset_eq_imp_distinct_iff mset_map mset_sort)
    with m have "sort_key fst ?rs2 = sort_key fst rs1"
      by (rule sort_key_distinct_unique)
    then show "sort_key fst ?rs2 = routers"
      by (simp add: rs)
  qed
  show "\<exists>w2 routers2.
      for_each (visit_dir directory auto_tags verbose import_module) triples (w, [])
        = Inr (w2, routers2)
      \<and> routers2 = concat (map (dir_entries directory import_module) triples)
      \<and> mset (sort_key fst routers2) = mset routers
      \<and> map fst (sort_key fst routers2) = map fst routers
      \<and> (distinct (map fst routers) \<longrightarrow> sort_key fst routers2 = routers)"
    using r2 a b c by blast
qed

theorem collect_sorted_and_deterministic_witness:
  "routers_of (collect api_dir True False docstring_importer docstring_tree fresh_world)
     = [(''documents/{document_id}'', 2), (''users'', 0), (''users/{user_id}'', 1)]
   \<and> concat (map (dir_entries api_dir docstring_importer) (walk api_dir docstring_tree))
     = [(''users'', 0), (''users/{user_id}'', 1), (''documents/{document_id}'', 2)]
   \<and> routers_of (collect api_dir True False docstring_importer docstring_tree fresh_world)
     = sort_key fst
         (concat (map (dir_entries api_dir docstring_importer) (walk api_dir docstring_tree)))
   \<and> sorted (map fst
         (routers_of (collect api_dir True False docstring_importer docstring_tree fresh_world)))
   \<and> (\<exists>w''. collect api_dir True False docstring_importer docstring_tree
         (state_world (collect api_dir True False docstring_importer docstring_tree fresh_world))
       = Inr (w'',
           routers_of (collect api_dir True False docstring_importer docstring_tree fresh_world)))
   \<and> (\<exists>w2 routers2.
         for_each (visit_dir api_dir True False docstring_importer)
           (rev (walk api_dir docstring_tree)) (fresh_world, []) = Inr (w2, routers2)
         \<and> routers2 = concat (map (dir_entries api_dir docstring_importer)
             (rev (walk api_dir docstring_tree)))
         \<and> mset (sort_key fst routers2) = mset
             (routers_of (collect api_dir True False docstring_importer docstring_tree fresh_world))
         \<and> map fst (sort_key fst routers2) = map fst
             (routers_of (collect api_dir True False docstring_importer docstring_tree fresh_world))
         \<and> sort_key fst routers2
           = routers_of (collect api_dir True False docstring_importer docstring_tree fresh_world))"
proof -
  obtain w' rs where c: "collect api_dir True False docstring_importer docstring_tree fresh_world
      = Inr (w', rs)"
    by (simp add: run_eval path_eval string_eval example_eval)
  have routers: "routers_of (collect api_dir True False docstring_importer docstring_tree
      fresh_world)
     = [(''documents/{document_id}'', 2), (''users'', 0), (''users/{user_id}'', 1)]"
    by (simp add: run_eval path_eval string_eval example_eval)
  have entries: "concat (map (dir_entries api_dir docstring_importer)
      (walk api_dir docstring_tree))
     = [(''users'', 0), (''users/{user_id}'', 1), (''documents/{document_id}'', 2)]"
    by (simp add: entries_eval path_eval string_eval example_eval)
  have rs: "rs = [(''documents/{document_id}'', 2), (''users'', 0), (''users/{user_id}'', 1)]"
    using routers by (simp add: c)
  have d: "distinct (map fst rs)"
    by (simp add: rs)
  have m: "mset (rev (walk api_dir docstring_tree)) = mset (walk api_dir docstring_tree)"
    by simp
  have "rs = sort_key fst
        (concat (map (dir_entries api_dir docstring_importer) (walk api_dir docstring_tree)))
    \<and> sorted (map fst rs)
    \<and> (\<exists>w''. collect api_dir True False docstring_importer docstring_tree w' = Inr (w'', rs))
    \<and> (\<exists>w2 routers2.
         for_each (visit_dir api_dir True False docstring_importer)
           (rev (walk api_dir docstring_tree)) (fresh_world, []) = Inr (w2, routers2)
         \<and> routers2 = concat (map (dir_entries api_dir docstring_importer)
             (rev (walk api_dir docstring_tree)))
         \<and> mset (sort_key fst routers2) = mset rs
         \<and> map fst (sort_key fst routers2) = map fst rs
         \<and> sort_key fst routers2 = rs)"
    using collect_sorted_and_deterministic [OF c] m d by blast
  then show ?thesis
    using routers entries unfolding c routers_of.simps state_world.simps by blast
qed

text \<open>
  C5 as stated fails for the order of the visit. The files \<^verbatim>\<open>a/b.py\<close> and
  \<^verbatim>\<open>a/b/route.py\<close> have the same route path, and visiting the directories in the
  reverse order returns their two entries in the other order. In the same way the
  directories \<^verbatim>\<open>[x]\<close> and \<^verbatim>\<open>{x}\<close> have the same route path, and their entries
  come in the order in which the two directories are listed.
\<close>

theorem visiting_order_counterexample:
  "routers_of (collect api_dir True False two_routers shadow_tree fresh_world)
     = [(''a/b'', 1), (''a/b'', 2)]
   \<and> mset (rev (walk api_dir shadow_tree)) = mset (walk api_dir shadow_tree)
   \<and> sort_key fst (routers_of (for_each (visit_dir api_dir True False two_routers)
         (rev (walk api_dir shadow_tree)) (fresh_world, [])))
     = [(''a/b'', 2), (''a/b'', 1)]
   \<and> routers_of (collect api_dir True False two_routers square_first_tree fresh_world)
     = [(''{x}'', 1), (''{x}'', 2)]
   \<and> routers_of (collect api_dir True False two_routers curly_first_tree fresh_world)
     = [(''{x}'', 2), (''{x}'', 1)]"
  by (simp add: run_eval path_eval string_eval example_eval)

section \<open>Repeated runs\<close>

lemma visit_file_tags_grow:
  "prefix (tags w h) (tags (state_world (visit_file d a v imp root f (w, rs))) h)"
  by (simp add: visit_file_def log_def emit_def add_tag_def Let_def
      split: module_result.splits option.splits)

lemma visit_file_tags_kept:
  "tags (state_world (visit_file d False v imp root f (w, rs))) = tags w"
  by (simp add: visit_file_def log_def emit_def Let_def
      split: module_result.splits option.splits)

lemma traverse_tags_grow:
  "\<forall>h. prefix (tags w h) (tags (state_world (traverse d a v imp t w)) h)"
  unfolding traverse_def
proof (rule for_each_world_rel [where R = "\<lambda>w w'. \<forall>h. prefix (tags w h) (tags w' h)"])
  show "\<forall>h. prefix (tags w h) (tags w h)" for w :: world
    by simp
  show "\<forall>h. prefix (tags a h) (tags c h)"
    if "\<forall>h. prefix (tags a h) (tags b h)" and "\<forall>h. prefix (tags b h) (tags c h)"
    for a b c :: world
    using that prefix_order.trans by blast
  show "\<forall>h. prefix (tags w h) (tags (state_world (visit_dir d a v imp x (w, rs))) h)"
    for x w rs
  proof (cases x)
    case (fields root ds fs)
    show ?thesis
    proof (cases "startswith (name root) ''__''")
      case True
      with fields show ?thesis by (simp add: visit_dir_def)
    next
      case False
      have "\<forall>h. prefix (tags w h)
          (tags (state_world (for_each (visit_file d a v imp root) fs (w, rs))) h)"
      proof (rule for_each_world_rel [where R = "\<lambda>w w'. \<forall>h. prefix (tags w h) (tags w' h)"])
        show "\<forall>h. prefix (tags w h) (tags w h)" for w :: world
          by simp
        show "\<forall>h. prefix (tags a h) (tags c h)"
          if "\<forall>h. prefix (tags a h) (tags b h)" and "\<forall>h. prefix (tags b h) (tags c h)"
          for a b c :: world
          using that prefix_order.trans by blast
        show "\<forall>h. prefix (tags w h) (tags (state_world (visit_file d a v imp root f (w, rs))) h)"
          for f w rs
          by (simp add: visit_file_tags_grow)
      qed
      with fields False show ?thesis by (simp add: visit_dir_def)
    qed
  qed
qed

lemma traverse_tags_kept:
  "tags (state_world (traverse d False v imp t w)) = tags w"
  unfolding traverse_def
proof (rule for_each_world_rel [where R = "\<lambda>w w'. tags w' = tags w"])
  show "tags w = tags w" for w :: world
    by simp
  show "tags c = tags a" if "tags b = tags a" and "tags c = tags b" for a b c :: world
    using that by simp
  show "tags (state_world (visit_dir d False v imp x (w, rs))) = tags w" for x w rs
  proof (cases x)
    case (fields root ds fs)
    show ?thesis
    proof (cases "startswith (name root) ''__''")
      case True
      with fields show ?thesis by (simp add: visit_dir_def)
    next
      case False
      have "tags (state_world (for_each (visit_file d False v imp root) fs (w, rs))) = tags w"
      proof (rule for_each_world_rel [where R = "\<lambda>w w'. tags w' = tags w"])
        show "tags w = tags w" for w :: world
          by simp
        show "tags c = tags a" if "tags b = tags a" and "tags c = tags b" for a b c :: world
          using that by simp
        show "tags (state_world (visit_file d False v imp root f (w, rs))) = tags w" for f w rs
          by (rule visit_file_tags_kept)
      qed
      with fields False show ?thesis by (simp add: visit_dir_def)
    qed
  qed
qed

lemma tags_world_of_load_routes:
  "tags (world_of (load_routes app d a v imp t w)) =
     tags (state_world (traverse d a v imp t (log (LoadingRoutes d) v w)))"
proof (cases rule: load_routes_cases [of d a v imp t w app])
  case (traversal ew)
  obtain e w' where "ew = (e, w')" by (cases ew)
  with traversal show ?thesis
    by (simp add: state_world_collect [symmetric])
next
  case (registration w1 rs ew)
  have "tags (world_of (for_each (include_router app v) rs w1)) = tags w1"
    using registration_loop [of app v rs w1] by blast
  with registration show ?thesis
    by (simp add: state_world_collect [symmetric])
next
  case (completed w1 rs w2)
  have "tags (world_of (for_each (include_router app v) rs w1)) = tags w1"
    using registration_loop [of app v rs w1] by blast
  with completed show ?thesis
    by (simp add: state_world_collect [symmetric] log_def emit_def)
qed

lemma tags_log [simp]: "tags (log m v w) = tags w"
  by (simp add: log_def emit_def)

text \<open>
  C4 (as amended). What a run collects, and whether it raises, does not depend on the
  world it starts in, so not on any earlier run: \<^verbatim>\<open>routers\<close> is fresh in every run.
  Without \<^verbatim>\<open>auto_tags\<close> a run leaves every router's tag list as it was. With
  \<^verbatim>\<open>auto_tags\<close> a run changes tag lists in place, and only by appending to them.
\<close>

theorem runs_share_tag_lists_only:
  "routers_of (collect directory auto_tags verbose import_module t u)
     = routers_of (collect directory auto_tags verbose import_module t w)
   \<and> isl (collect directory auto_tags verbose import_module t u)
     = isl (collect directory auto_tags verbose import_module t w)
   \<and> (\<not> auto_tags \<longrightarrow>
        tags (world_of (load_routes app directory auto_tags verbose import_module t w)) = tags w)
   \<and> prefix (tags w router)
        (tags (world_of (load_routes app directory auto_tags verbose import_module t w)) router)"
proof -
  have same: "routers_of (collect directory auto_tags verbose import_module t y)
        = routers_of (collect directory auto_tags verbose import_module t x)
      \<and> \<not> isl (collect directory auto_tags verbose import_module t y)"
    if "\<not> isl (collect directory auto_tags verbose import_module t x)" for x y
  proof -
    from that obtain x' rs where
      c: "collect directory auto_tags verbose import_module t x = Inr (x', rs)"
      by (cases "collect directory auto_tags verbose import_module t x") auto
    then obtain y' where "collect directory auto_tags verbose import_module t y = Inr (y', rs)"
      using collect_independent by blast
    with c show ?thesis by simp
  qed
  have a: "routers_of (collect directory auto_tags verbose import_module t u)
       = routers_of (collect directory auto_tags verbose import_module t w)
     \<and> isl (collect directory auto_tags verbose import_module t u)
       = isl (collect directory auto_tags verbose import_module t w)"
  proof (cases "isl (collect directory auto_tags verbose import_module t w)")
    case False
    then show ?thesis using same [of w u] by simp
  next
    case True
    then have u: "isl (collect directory auto_tags verbose import_module t u)"
      using same [of u w] by blast
    from True obtain e where "collect directory auto_tags verbose import_module t w = Inl e"
      by (cases "collect directory auto_tags verbose import_module t w") auto
    moreover from u obtain e' where "collect directory auto_tags verbose import_module t u = Inl e'"
      by (cases "collect directory auto_tags verbose import_module t u") auto
    ultimately show ?thesis by simp
  qed
  have b: "\<not> auto_tags \<longrightarrow>
      tags (world_of (load_routes app directory auto_tags verbose import_module t w)) = tags w"
    by (simp add: tags_world_of_load_routes traverse_tags_kept)
  have c: "prefix (tags w router)
      (tags (world_of (load_routes app directory auto_tags verbose import_module t w)) router)"
    using traverse_tags_grow [of "log (LoadingRoutes directory) verbose w" directory auto_tags
        verbose import_module t]
    by (simp add: tags_world_of_load_routes)
  show ?thesis
    using a b c by blast
qed

theorem runs_share_tag_lists_only_witness:
  "routers_of (collect api_dir True False one_router docstring_tree
       (world_of (load_routes mock_app api_dir True False one_router docstring_tree fresh_world)))
     = routers_of (collect api_dir True False one_router docstring_tree fresh_world)
   \<and> isl (collect api_dir True False one_router docstring_tree
       (world_of (load_routes mock_app api_dir True False one_router docstring_tree fresh_world)))
     = isl (collect api_dir True False one_router docstring_tree fresh_world)
   \<and> tags (world_of (load_routes mock_app api_dir False False one_router docstring_tree fresh_world))
     = tags fresh_world
   \<and> prefix (tags fresh_world 0)
        (tags (world_of (load_routes mock_app api_dir True False one_router docstring_tree fresh_world)) 0)"
  using
    runs_share_tag_lists_only [where directory = api_dir and auto_tags = True
      and verbose = False and import_module = one_router and t = docstring_tree
      and u = "world_of (load_routes mock_app api_dir True False one_router docstring_tree
        fresh_world)" and w = fresh_world and router = 0 and app = mock_app]
    runs_share_tag_lists_only [where directory = api_dir and auto_tags = False
      and verbose = False and import_module = one_router and t = docstring_tree
      and u = fresh_world and w = fresh_world and router = 0 and app = mock_app]
  by simp

text \<open>
  C4 as stated fails: the importer returns the same router object in every run, the
  first run has appended a tag to it, and the second run registers the router with the
  tags of both runs, on the app of the test suite below \<^verbatim>\<open>api\<close> as on an app that
  asserts the leading slash below \<^verbatim>\<open>app/api\<close>.
\<close>

theorem rerun_sees_tags_counterexample:
  "tags fresh_world 0 = []
   \<and> tags (world_of (load_routes mock_app api_dir True False one_router
         (lone_file [''users''] ''route.py'') fresh_world)) 0 = [''users'']
   \<and> registrations (trace (world_of (load_routes mock_app api_dir True False one_router
         (lone_file [''users''] ''route.py'') fresh_world))) = [(0, ''users'', [''users''])]
   \<and> registrations (trace (world_of (load_routes mock_app api_dir True False one_router
         (lone_file [''users''] ''route.py'')
         (world_of (load_routes mock_app api_dir True False one_router
            (lone_file [''users''] ''route.py'') fresh_world)))))
       = [(0, ''users'', [''users'']), (0, ''users'', [''users'', ''users''])]
   \<and> registrations (trace (world_of (load_routes asserting_app app_api_dir True False
         one_router (lone_file [''users''] ''route.py'')
         (world_of (load_routes asserting_app app_api_dir True False one_router
            (lone_file [''users''] ''route.py'') fresh_world)))))
       = [(0, ''/users'', [''/users'']), (0, ''/users'', [''/users'', ''/users''])]"
  by (simp add: run_eval path_eval string_eval example_eval)

end
